theory Spec2Isabelle
  imports Main "HOL-Library.Word" "HOL-Library.Monad_Syntax"
begin

unbundle bit_operations_syntax

section \<open>The SPI flash driver (SPIFlash.cpp) as state transformers\<close>

text \<open>
  The driver talks to three collaborators that are not part of the source: the SPI bus
  (\<^verbatim>\<open>beginTransaction\<close>, \<^verbatim>\<open>transfer\<close>, \<^verbatim>\<open>endTransaction\<close>, \<^verbatim>\<open>begin\<close>, \<^verbatim>\<open>end\<close>), the
  chip-select pin (\<^verbatim>\<open>pinMode\<close>, \<^verbatim>\<open>digitalWrite\<close>) and the flash chip that answers on the
  MISO line. Every call into a collaborator is recorded as an event of the bus
  transcript, in program order. The chip is an arbitrary stream of answer bytes: the
  \<open>k\<close>-th byte exchange of a run receives \<open>miso k\<close>. Nothing is assumed about the stream, so
  a chip that stays busy for ever is one of its values.
\<close>

type_synonym u8 = "8 word"
type_synonym u16 = "16 word"
type_synonym u32 = "32 word"

datatype level = LOW | HIGH

datatype event =
    PinModeOutput u8
  | SpiBegin
  | SpiEnd
  | BeginTransaction nat
  | EndTransaction
  | DigitalWrite u8 level
  | Transfer u8 u8

text \<open>
  The opcode macros \<^verbatim>\<open>SPIFLASH_*\<close> are defined in the header \<^verbatim>\<open>SPIFlash.h\<close>, which is not
  among the sources. The functions below take the table of opcodes as a parameter.
\<close>

record opcodes =
  SPIFLASH_WRITEENABLE :: u8
  SPIFLASH_BLOCKERASE_4K :: u8
  SPIFLASH_BLOCKERASE_32K :: u8
  SPIFLASH_BLOCKERASE_64K :: u8
  SPIFLASH_CHIPERASE :: u8
  SPIFLASH_STATUSREAD :: u8
  SPIFLASH_STATUSWRITE :: u8
  SPIFLASH_ARRAYREAD :: u8
  SPIFLASH_ARRAYREADLOWFREQ :: u8
  SPIFLASH_SLEEP :: u8
  SPIFLASH_WAKE :: u8
  SPIFLASH_BYTEPAGEPROGRAM :: u8
  SPIFLASH_IDREAD :: u8
  SPIFLASH_MACREAD :: u8

text \<open>
  The members of the \<^verbatim>\<open>SPIFlash\<close> object set by the constructor (lines 53-58). The bus
  settings are opaque to the driver; they are a number here. The bus object \<^verbatim>\<open>_spi\<close> is
  the transcript itself.
\<close>

record SPIFlash =
  slaveSelectPin :: u8
  jedecID :: u16
  settings :: nat

text \<open>
  The machine state: the transcript so far, the chip's answer stream and how many bytes
  of it have been consumed, and the static array \<^verbatim>\<open>UNIQUEID\<close> (line 37).
\<close>

record machine =
  transcript :: "event list"
  miso :: "nat \<Rightarrow> u8"
  rxpos :: nat
  UNIQUEID :: "u8 list"

subsection \<open>Bus primitives\<close>

definition emit :: "event list \<Rightarrow> machine \<Rightarrow> machine" where
  "emit es s = s\<lparr>transcript := transcript s @ es\<rparr>"

text \<open>\<^verbatim>\<open>_spi->transfer(out)\<close>: one full-duplex byte exchange; returns the byte received.\<close>

definition transfer :: "u8 \<Rightarrow> machine \<Rightarrow> u8 \<times> machine" where
  "transfer out s =
     (miso s (rxpos s),
      s\<lparr>transcript := transcript s @ [Transfer out (miso s (rxpos s))],
        rxpos := Suc (rxpos s)\<rparr>)"

text \<open>A transfer whose result the source discards.\<close>

definition send :: "u8 \<Rightarrow> machine \<Rightarrow> machine" where
  "send out s = snd (transfer out s)"

text \<open>Lines 61-64.\<close>

definition select :: "SPIFlash \<Rightarrow> machine \<Rightarrow> machine" where
  "select dev s =
     emit [DigitalWrite (slaveSelectPin dev) LOW] (emit [BeginTransaction (settings dev)] s)"

text \<open>Lines 67-70.\<close>

definition unselect :: "SPIFlash \<Rightarrow> machine \<Rightarrow> machine" where
  "unselect dev s =
     emit [EndTransaction] (emit [DigitalWrite (slaveSelectPin dev) HIGH] s)"

subsection \<open>Identification and status\<close>

text \<open>Lines 91-98.\<close>

definition readDeviceId :: "opcodes \<Rightarrow> SPIFlash \<Rightarrow> machine \<Rightarrow> u16 \<times> machine" where
  "readDeviceId ops dev s =
     (let s1 = select dev s;
          s2 = send (SPIFLASH_IDREAD ops) s1;
          (hi, s3) = transfer 0 s2;
          jedecid = push_bit 8 (ucast hi :: u16);
          (lo, s4) = transfer 0 s3;
          jedecid = jedecid OR ucast lo
      in (jedecid, unselect dev s4))"

text \<open>Lines 175-181.\<close>

definition readStatus :: "opcodes \<Rightarrow> SPIFlash \<Rightarrow> machine \<Rightarrow> u8 \<times> machine" where
  "readStatus ops dev s =
     (let s1 = select dev s;
          s2 = send (SPIFLASH_STATUSREAD ops) s1;
          (status, s3) = transfer 0 s2
      in (status, unselect dev s3))"

text \<open>Lines 163-172: \<^verbatim>\<open>readStatus() & 1\<close> converted to \<^verbatim>\<open>bool\<close>.\<close>

definition busy :: "opcodes \<Rightarrow> SPIFlash \<Rightarrow> machine \<Rightarrow> bool \<times> machine" where
  "busy ops dev s = (let (status, s1) = readStatus ops dev s in (status AND 1 \<noteq> 0, s1))"

subsection \<open>The command dispatcher\<close>

text \<open>
  Line 157, \<^verbatim>\<open>while(busy());\<close>. The loop has no bound: the value \<open>None\<close> stands for a run
  that never leaves it.
\<close>

partial_function (option) while_busy :: "opcodes \<Rightarrow> SPIFlash \<Rightarrow> machine \<Rightarrow> machine option" where
  "while_busy ops dev s =
     (case busy ops dev s of (b, s1) \<Rightarrow> if b then while_busy ops dev s1 else Some s1)"

text \<open>
  Lines 143-160. The calls \<^verbatim>\<open>command(cmd)\<close> with one argument rely on the default
  \<^verbatim>\<open>isWrite = false\<close> of the declaration in the header; the nested call of line 146 is
  such a call, so the recursion has depth at most two.
\<close>

function command :: "opcodes \<Rightarrow> SPIFlash \<Rightarrow> u8 \<Rightarrow> bool \<Rightarrow> machine \<Rightarrow> machine option" where
  "command ops dev cmd isWrite s =
     do {
       s1 \<leftarrow> (if isWrite
              then do {
                s0 \<leftarrow> command ops dev (SPIFLASH_WRITEENABLE ops) False s;
                Some (unselect dev s0)
              }
              else Some s);
       s2 \<leftarrow> (if cmd \<noteq> SPIFLASH_WAKE ops then while_busy ops dev s1 else Some s1);
       Some (send cmd (select dev s2))
     }"
  by pat_completeness auto
termination
  by (relation "measure (\<lambda>(ops, dev, cmd, isWrite, s). if isWrite then 1 else 0)") auto

declare command.simps [simp del]

text \<open>
  The three address bytes of lines 122-124 (and 133-135, 189-191, 209-211, 239-241,
  248-250, 257-259): the \<^verbatim>\<open>uint32_t\<close> expressions are truncated to the \<^verbatim>\<open>uint8_t\<close>
  parameter of \<^verbatim>\<open>transfer\<close>.
\<close>

definition send_addr :: "u32 \<Rightarrow> machine \<Rightarrow> machine" where
  "send_addr addr s =
     send (ucast addr) (send (ucast (drop_bit 8 addr)) (send (ucast (drop_bit 16 addr)) s))"

subsection \<open>Reading\<close>

text \<open>
  The receive loops of lines 113-114 and 137-138: \<open>k\<close> times \<^verbatim>\<open>transfer(0)\<close>, the bytes
  received stored in order.
\<close>

fun recv :: "nat \<Rightarrow> machine \<Rightarrow> u8 list \<times> machine" where
  "recv 0 s = ([], s)"
| "recv (Suc k) s =
     (let (b, s1) = transfer 0 s; (bs, s2) = recv k s1 in (b # bs, s2))"

text \<open>Lines 106-117; the loop fills \<^verbatim>\<open>UNIQUEID[0..7]\<close>.\<close>

definition readUniqueId :: "opcodes \<Rightarrow> SPIFlash \<Rightarrow> machine \<Rightarrow> (u8 list \<times> machine) option" where
  "readUniqueId ops dev s =
     do {
       s1 \<leftarrow> command ops dev (SPIFLASH_MACREAD ops) False s;
       let s2 = send 0 (send 0 (send 0 (send 0 s1)));
           (uid, s3) = recv 8 s2;
           s4 = unselect dev (s3\<lparr>UNIQUEID := uid\<rparr>)
       in Some (UNIQUEID s4, s4)
     }"

text \<open>Lines 120-128.\<close>

definition readByte :: "opcodes \<Rightarrow> SPIFlash \<Rightarrow> u32 \<Rightarrow> machine \<Rightarrow> (u8 \<times> machine) option" where
  "readByte ops dev addr s =
     do {
       s1 \<leftarrow> command ops dev (SPIFLASH_ARRAYREADLOWFREQ ops) False s;
       let s2 = send_addr addr s1;
           (result, s3) = transfer 0 s2
       in Some (result, unselect dev s3)
     }"

text \<open>
  Lines 131-140. The buffer the source fills through the pointer \<^verbatim>\<open>buf\<close> is returned as
  the list of its first \<^verbatim>\<open>len\<close> bytes. The counter \<^verbatim>\<open>i\<close> stays below \<^verbatim>\<open>len\<close>, so it does
  not wrap.
\<close>

definition readBytes :: "opcodes \<Rightarrow> SPIFlash \<Rightarrow> u32 \<Rightarrow> u16 \<Rightarrow> machine \<Rightarrow> (u8 list \<times> machine) option" where
  "readBytes ops dev addr len s =
     do {
       s1 \<leftarrow> command ops dev (SPIFLASH_ARRAYREAD ops) False s;
       let s2 = send_addr addr s1;
           s3 = send 0 s2;
           (buf, s4) = recv (unat len) s3
       in Some (buf, unselect dev s4)
     }"

subsection \<open>Writing\<close>

text \<open>Lines 187-194.\<close>

definition writeByte :: "opcodes \<Rightarrow> SPIFlash \<Rightarrow> u32 \<Rightarrow> u8 \<Rightarrow> machine \<Rightarrow> machine option" where
  "writeByte ops dev addr byt s =
     do {
       s1 \<leftarrow> command ops dev (SPIFLASH_BYTEPAGEPROGRAM ops) True s;
       Some (unselect dev (send byt (send_addr addr s1)))
     }"

text \<open>
  Lines 213-215: the payload loop of one chunk. The caller's buffer is the memory behind
  the pointer \<^verbatim>\<open>buf\<close>, a function from byte offsets to bytes.
\<close>

definition send_payload :: "(nat \<Rightarrow> u8) \<Rightarrow> u16 \<Rightarrow> u16 \<Rightarrow> machine \<Rightarrow> machine" where
  "send_payload buf offset n s = fold (\<lambda>i. send (buf (unat offset + i))) [0..<unat n] s"

text \<open>
  Lines 205-222: the \<^verbatim>\<open>while (len>0)\<close> loop, with the loop variables \<^verbatim>\<open>addr\<close>,
  \<^verbatim>\<open>offset\<close>, \<^verbatim>\<open>len\<close> and \<^verbatim>\<open>maxBytes\<close> as arguments; each is a machine integer of the
  source's width.
\<close>

partial_function (option) writeBytes_loop ::
  "opcodes \<Rightarrow> SPIFlash \<Rightarrow> (nat \<Rightarrow> u8) \<Rightarrow> u32 \<Rightarrow> u16 \<Rightarrow> u16 \<Rightarrow> u16 \<Rightarrow> machine \<Rightarrow> machine option" where
  "writeBytes_loop ops dev buf addr offset len maxBytes s =
     (if len > 0 then
        (let n = (if len \<le> maxBytes then len else maxBytes) in
         do {
           s1 \<leftarrow> command ops dev (SPIFLASH_BYTEPAGEPROGRAM ops) True s;
           writeBytes_loop ops dev buf (addr + ucast n) (offset + n) (len - n) 256
             (unselect dev (send_payload buf offset n (send_addr addr s1)))
         })
      else Some s)"

text \<open>Lines 201-204: \<^verbatim>\<open>256-(addr%256)\<close> is computed in 32 bits and stored in 16.\<close>

definition writeBytes :: "opcodes \<Rightarrow> SPIFlash \<Rightarrow> u32 \<Rightarrow> (nat \<Rightarrow> u8) \<Rightarrow> u16 \<Rightarrow> machine \<Rightarrow> machine option" where
  "writeBytes ops dev addr buf len s =
     writeBytes_loop ops dev buf addr 0 len (ucast (256 - addr mod 256)) s"

subsection \<open>Erasing\<close>

text \<open>Lines 231-234, 237-243, 246-252, 255-261.\<close>

definition chipErase :: "opcodes \<Rightarrow> SPIFlash \<Rightarrow> machine \<Rightarrow> machine option" where
  "chipErase ops dev s =
     do { s1 \<leftarrow> command ops dev (SPIFLASH_CHIPERASE ops) True s; Some (unselect dev s1) }"

definition blockErase4K :: "opcodes \<Rightarrow> SPIFlash \<Rightarrow> u32 \<Rightarrow> machine \<Rightarrow> machine option" where
  "blockErase4K ops dev addr s =
     do {
       s1 \<leftarrow> command ops dev (SPIFLASH_BLOCKERASE_4K ops) True s;
       Some (unselect dev (send_addr addr s1))
     }"

definition blockErase32K :: "opcodes \<Rightarrow> SPIFlash \<Rightarrow> u32 \<Rightarrow> machine \<Rightarrow> machine option" where
  "blockErase32K ops dev addr s =
     do {
       s1 \<leftarrow> command ops dev (SPIFLASH_BLOCKERASE_32K ops) True s;
       Some (unselect dev (send_addr addr s1))
     }"

definition blockErase64K :: "opcodes \<Rightarrow> SPIFlash \<Rightarrow> u32 \<Rightarrow> machine \<Rightarrow> machine option" where
  "blockErase64K ops dev addr s =
     do {
       s1 \<leftarrow> command ops dev (SPIFLASH_BLOCKERASE_64K ops) True s;
       Some (unselect dev (send_addr addr s1))
     }"

subsection \<open>Power state, presence and initialisation\<close>

text \<open>Lines 294-297 and 303-306.\<close>

definition sleep :: "opcodes \<Rightarrow> SPIFlash \<Rightarrow> machine \<Rightarrow> machine option" where
  "sleep ops dev s =
     do { s1 \<leftarrow> command ops dev (SPIFLASH_SLEEP ops) False s; Some (unselect dev s1) }"

definition wakeup :: "opcodes \<Rightarrow> SPIFlash \<Rightarrow> machine \<Rightarrow> machine option" where
  "wakeup ops dev s =
     do { s1 \<leftarrow> command ops dev (SPIFLASH_WAKE ops) False s; Some (unselect dev s1) }"

text \<open>Lines 309-311.\<close>

definition end_spi :: "machine \<Rightarrow> machine" where
  "end_spi s = emit [SpiEnd] s"

text \<open>
  Lines 267-274: the \<^verbatim>\<open>for\<close> loop of \<^verbatim>\<open>found\<close>, with \<^verbatim>\<open>i\<close> and \<^verbatim>\<open>deviceID\<close> as
  arguments; it returns the final \<^verbatim>\<open>deviceID\<close>. The counter stays below 10.
\<close>

function found_loop :: "opcodes \<Rightarrow> SPIFlash \<Rightarrow> nat \<Rightarrow> u16 \<Rightarrow> machine \<Rightarrow> u16 \<times> machine" where
  "found_loop ops dev i deviceID s =
     (if i < 10 then
        (let (idNow, s1) = readDeviceId ops dev s in
         if idNow = 0 \<or> idNow = 0xffff \<or> (i > 0 \<and> idNow \<noteq> deviceID)
         then (0, s1)
         else found_loop ops dev (i + 1) idNow s1)
      else (deviceID, s))"
  by pat_completeness auto
termination
  by (relation "measure (\<lambda>(ops, dev, i, deviceID, s). 10 - i)") auto

declare found_loop.simps [simp del]

text \<open>Lines 264-279. The result type is \<^verbatim>\<open>uint8_t\<close>: \<^verbatim>\<open>false\<close> is 0 and \<^verbatim>\<open>true\<close> is 1.\<close>

definition found :: "opcodes \<Rightarrow> SPIFlash \<Rightarrow> machine \<Rightarrow> (u8 \<times> machine) option" where
  "found ops dev s =
     do {
       s1 \<leftarrow> wakeup ops dev s;
       let (deviceID, s2) = found_loop ops dev 0 0 s1
       in if deviceID = 0 then Some (0, s2) else Some (1, s2)
     }"

text \<open>
  Line 285: the scan of the transient buffer, with the early \<^verbatim>\<open>return false\<close>. The
  counter \<^verbatim>\<open>i\<close> stays below \<^verbatim>\<open>length\<close>, which is at most 255.
\<close>

function all_ff_from :: "u8 list \<Rightarrow> nat \<Rightarrow> nat \<Rightarrow> u8" where
  "all_ff_from flashBuf i length' =
     (if i < length' then
        (if flashBuf ! i \<noteq> 0xff then 0 else all_ff_from flashBuf (i + 1) length')
      else 1)"
  by pat_completeness auto
termination
  by (relation "measure (\<lambda>(flashBuf, i, length'). length' - i)") auto

declare all_ff_from.simps [simp del]

text \<open>
  Lines 282-287. The \<^verbatim>\<open>uint8_t length\<close> is widened to the \<^verbatim>\<open>uint16_t\<close> parameter of
  \<^verbatim>\<open>readBytes\<close>.
\<close>

definition regionIsEmpty :: "opcodes \<Rightarrow> SPIFlash \<Rightarrow> u32 \<Rightarrow> u8 \<Rightarrow> machine \<Rightarrow> (u8 \<times> machine) option" where
  "regionIsEmpty ops dev startAddress length' s =
     do {
       (flashBuf, s1) \<leftarrow> readBytes ops dev startAddress (ucast length') s;
       Some (all_ff_from flashBuf 0 (unat length'), s1)
     }"

text \<open>Lines 73-88. The \<^verbatim>\<open>||\<close> of line 81 reads the identifier only when \<^verbatim>\<open>_jedecID\<close> is not 0.\<close>

definition initialize :: "opcodes \<Rightarrow> SPIFlash \<Rightarrow> machine \<Rightarrow> (bool \<times> machine) option" where
  "initialize ops dev s =
     do {
       let s1 = emit [PinModeOutput (slaveSelectPin dev)] s;
       let s2 = emit [SpiBegin] s1;
       let s3 = unselect dev s2;
       s4 \<leftarrow> wakeup ops dev s3;
       let (ok, s5) = (if jedecID dev = 0 then (True, s4)
                       else (let (id, s') = readDeviceId ops dev s4 in (id = jedecID dev, s')));
       if ok then do {
         s6 \<leftarrow> command ops dev (SPIFLASH_STATUSWRITE ops) True s5;
         let s7 = send 0 s6;
         Some (True, unselect dev s7)
       }
       else Some (False, s5)
     }"

section \<open>Bus traffic in normal form\<close>

text \<open>
  The definitions of this section describe bus traffic; they are not functions of the
  source. \<open>xfers rx p outs\<close> are the exchanges that send \<open>outs\<close> while the chip answers
  from position \<open>p\<close> of its stream; \<open>opened dev outs\<close> acquires the bus and sends \<open>outs\<close>;
  \<open>exchange dev outs\<close> is a whole command cycle: acquire, send \<open>outs\<close>, release.
\<close>

fun xfers :: "(nat \<Rightarrow> u8) \<Rightarrow> nat \<Rightarrow> u8 list \<Rightarrow> event list" where
  "xfers rx p [] = []"
| "xfers rx p (b # bs) = Transfer b (rx p) # xfers rx (Suc p) bs"

definition advance :: "event list \<Rightarrow> nat \<Rightarrow> machine \<Rightarrow> machine" where
  "advance es n s = s\<lparr>transcript := transcript s @ es, rxpos := rxpos s + n\<rparr>"

definition opened :: "SPIFlash \<Rightarrow> u8 list \<Rightarrow> machine \<Rightarrow> machine" where
  "opened dev outs s =
     advance ([BeginTransaction (settings dev), DigitalWrite (slaveSelectPin dev) LOW]
              @ xfers (miso s) (rxpos s) outs) (length outs) s"

definition exchange :: "SPIFlash \<Rightarrow> u8 list \<Rightarrow> machine \<Rightarrow> machine" where
  "exchange dev outs s =
     advance ([BeginTransaction (settings dev), DigitalWrite (slaveSelectPin dev) LOW]
              @ xfers (miso s) (rxpos s) outs
              @ [DigitalWrite (slaveSelectPin dev) HIGH, EndTransaction]) (length outs) s"

text \<open>\<open>k\<close> status polls in a row, each a command cycle of two bytes.\<close>

definition polls :: "opcodes \<Rightarrow> SPIFlash \<Rightarrow> nat \<Rightarrow> machine \<Rightarrow> machine" where
  "polls ops dev k s = (exchange dev [SPIFLASH_STATUSREAD ops, 0] ^^ k) s"

text \<open>
  \<open>settles s k\<close>: polled from state \<open>s\<close>, the chip reports busy \<open>k\<close> times and then
  not busy. The status byte of poll \<open>j\<close> is the second byte of that cycle.
\<close>

definition settles :: "machine \<Rightarrow> nat \<Rightarrow> bool" where
  "settles s k \<longleftrightarrow>
     (\<forall>j<k. miso s (Suc (rxpos s + 2 * j)) AND 1 \<noteq> 0) \<and>
     miso s (Suc (rxpos s + 2 * k)) AND 1 = 0"

text \<open>
  The dispatcher in three parts. \<open>gate\<close> is line 157: the busy-wait, which the wake-up
  opcode skips. \<open>prelude\<close> is everything \<^verbatim>\<open>command\<close> does before it acquires the bus for
  the opcode itself: for a write command the write-enable cycle behind its own gate, then
  the gate of the opcode. \<open>cycle\<close> is a whole command cycle of an operation: the prelude,
  then one exchange that sends the opcode and its arguments.
\<close>

definition gate :: "opcodes \<Rightarrow> SPIFlash \<Rightarrow> u8 \<Rightarrow> machine \<Rightarrow> machine option" where
  "gate ops dev cmd s = (if cmd \<noteq> SPIFLASH_WAKE ops then while_busy ops dev s else Some s)"

definition prelude :: "opcodes \<Rightarrow> SPIFlash \<Rightarrow> u8 \<Rightarrow> bool \<Rightarrow> machine \<Rightarrow> machine option" where
  "prelude ops dev cmd isWrite s =
     do {
       s1 \<leftarrow> (if isWrite
              then map_option (exchange dev [SPIFLASH_WRITEENABLE ops])
                     (gate ops dev (SPIFLASH_WRITEENABLE ops) s)
              else Some s);
       gate ops dev cmd s1
     }"

definition cycle :: "opcodes \<Rightarrow> SPIFlash \<Rightarrow> bool \<Rightarrow> u8 \<Rightarrow> u8 list \<Rightarrow> machine \<Rightarrow> machine option" where
  "cycle ops dev isWrite cmd args s =
     map_option (exchange dev (cmd # args)) (prelude ops dev cmd isWrite s)"

fun write_cycles :: "opcodes \<Rightarrow> SPIFlash \<Rightarrow> u8 \<Rightarrow> u8 list list \<Rightarrow> machine \<Rightarrow> machine option" where
  "write_cycles ops dev cmd [] s = Some s"
| "write_cycles ops dev cmd (args # rest) s =
     cycle ops dev True cmd args s \<bind> write_cycles ops dev cmd rest"

definition addr_bytes :: "u32 \<Rightarrow> u8 list" where
  "addr_bytes addr = [ucast (drop_bit 16 addr), ucast (drop_bit 8 addr), ucast addr]"

section \<open>The chunk plan of \<^verbatim>\<open>writeBytes\<close>\<close>

text \<open>
  The arithmetic of the loop of lines 205-222 without the bus: the list of chunks
  (start address, buffer offset, length) it programs, from the same loop variables. With
  \<^verbatim>\<open>maxBytes\<close> 0 the loop of the source would not advance; \<^verbatim>\<open>writeBytes\<close> never enters it
  so, and the plan is empty there.
\<close>

type_synonym chunk = "u32 \<times> u16 \<times> u16"

function writeBytes_plan :: "u32 \<Rightarrow> u16 \<Rightarrow> u16 \<Rightarrow> u16 \<Rightarrow> chunk list" where
  "writeBytes_plan addr offset len maxBytes =
     (if len > 0 \<and> maxBytes > 0 then
        (let n = (if len \<le> maxBytes then len else maxBytes) in
         (addr, offset, n) # writeBytes_plan (addr + ucast n) (offset + n) (len - n) 256)
      else [])"
  by pat_completeness auto
termination
proof (relation "measure (\<lambda>(addr, offset, len, maxBytes). unat len)")
  show "wf (measure (\<lambda>(addr, offset, len, maxBytes). unat len))"
    by simp
next
  fix addr :: u32 and offset len maxBytes n :: u16
  assume a: "0 < len \<and> 0 < maxBytes" and n: "n = (if len \<le> maxBytes then len else maxBytes)"
  from a n have "0 < n" "n \<le> len"
    by (auto split: if_splits)
  then have "unat (len - n) < unat len"
    by (simp add: unat_sub word_less_nat_alt word_le_nat_alt)
  then show "((addr + ucast n, offset + n, len - n, 256), (addr, offset, len, maxBytes))
      \<in> measure (\<lambda>(addr, offset, len, maxBytes). unat len)"
    by simp
qed

declare writeBytes_plan.simps [simp del]

text \<open>The plan from the initial values of lines 203-204.\<close>

definition writeBytes_chunks :: "u32 \<Rightarrow> u16 \<Rightarrow> chunk list" where
  "writeBytes_chunks addr len = writeBytes_plan addr 0 len (ucast (256 - addr mod 256))"

definition chunk_start :: "chunk \<Rightarrow> u32" where
  "chunk_start c = (case c of (st, off, k) \<Rightarrow> st)"

definition chunk_len :: "chunk \<Rightarrow> nat" where
  "chunk_len c = (case c of (st, off, k) \<Rightarrow> unat k)"

definition chunk_payload :: "(nat \<Rightarrow> u8) \<Rightarrow> chunk \<Rightarrow> u8 list" where
  "chunk_payload buf c = (case c of (st, off, k) \<Rightarrow> map (\<lambda>i. buf (unat off + i)) [0..<unat k])"

text \<open>The bytes one chunk sends after the page-program opcode (lines 209-215).\<close>

definition chunk_args :: "(nat \<Rightarrow> u8) \<Rightarrow> chunk \<Rightarrow> u8 list" where
  "chunk_args buf c = addr_bytes (chunk_start c) @ chunk_payload buf c"


section \<open>A memory behind the bus\<close>




section \<open>Observations on the transcript\<close>

text \<open>The events of a whole command cycle and of \<open>k\<close> status polls, written out.\<close>

definition cycle_evs :: "SPIFlash \<Rightarrow> (nat \<Rightarrow> u8) \<Rightarrow> nat \<Rightarrow> u8 list \<Rightarrow> event list" where
  "cycle_evs dev rx p outs =
     [BeginTransaction (settings dev), DigitalWrite (slaveSelectPin dev) LOW]
     @ xfers rx p outs @ [DigitalWrite (slaveSelectPin dev) HIGH, EndTransaction]"

fun poll_evs :: "opcodes \<Rightarrow> SPIFlash \<Rightarrow> (nat \<Rightarrow> u8) \<Rightarrow> nat \<Rightarrow> nat \<Rightarrow> event list" where
  "poll_evs ops dev rx p 0 = []"
| "poll_evs ops dev rx p (Suc k) =
     cycle_evs dev rx p [SPIFLASH_STATUSREAD ops, 0] @ poll_evs ops dev rx (p + 2) k"

text \<open>The events an operation appended: the transcript after it, without the one before.\<close>

definition issued :: "machine \<Rightarrow> machine \<Rightarrow> event list" where
  "issued s s' = drop (length (transcript s)) (transcript s')"

text \<open>
  The frames of a transcript: for each time the chip-select pin \<open>pin\<close> is driven low, the
  bytes sent until it is driven high again (or the transcript ends). The first byte of a
  frame is the opcode the chip sees.
\<close>

fun flush :: "u8 list option \<Rightarrow> u8 list list" where
  "flush None = []"
| "flush (Some f) = [f]"

fun frame_step :: "u8 \<Rightarrow> u8 list list \<times> u8 list option \<Rightarrow> event \<Rightarrow> u8 list list \<times> u8 list option" where
  "frame_step pin (fs, cur) (DigitalWrite p LOW) =
     (if p = pin then (fs @ flush cur, Some []) else (fs, cur))"
| "frame_step pin (fs, cur) (DigitalWrite p HIGH) =
     (if p = pin then (fs @ flush cur, None) else (fs, cur))"
| "frame_step pin (fs, cur) (Transfer out inp) = (fs, map_option (\<lambda>f. f @ [out]) cur)"
| "frame_step pin (fs, cur) e = (fs, cur)"

definition mosi_frames :: "u8 \<Rightarrow> event list \<Rightarrow> u8 list list" where
  "mosi_frames pin es =
     (case foldl (frame_step pin) ([], None) es of (fs, cur) \<Rightarrow> fs @ flush cur)"

text \<open>
  The state of the bus after a transcript: whether a transaction is open, the level of
  the chip-select pin, and whether every byte exchange so far took place inside a
  transaction with the chip selected.
\<close>

fun bus_step :: "u8 \<Rightarrow> bool \<times> level \<times> bool \<Rightarrow> event \<Rightarrow> bool \<times> level \<times> bool" where
  "bus_step pin (txn, cs, ok) (BeginTransaction cfg) = (True, cs, ok)"
| "bus_step pin (txn, cs, ok) EndTransaction = (False, cs, ok)"
| "bus_step pin (txn, cs, ok) (DigitalWrite p l) = (txn, if p = pin then l else cs, ok)"
| "bus_step pin (txn, cs, ok) (Transfer out inp) = (txn, cs, ok \<and> txn \<and> cs = LOW)"
| "bus_step pin (txn, cs, ok) e = (txn, cs, ok)"

definition bus_state :: "SPIFlash \<Rightarrow> machine \<Rightarrow> bool \<times> level \<times> bool" where
  "bus_state dev s = foldl (bus_step (slaveSelectPin dev)) (False, HIGH, True) (transcript s)"

text \<open>
  Released: no transaction open, the chip deselected, and no exchange outside an
  acquisition so far. Acquired: transaction open and chip selected, likewise.
\<close>

definition released :: "SPIFlash \<Rightarrow> machine \<Rightarrow> bool" where
  "released dev s \<longleftrightarrow> bus_state dev s = (False, HIGH, True)"

definition acquired :: "SPIFlash \<Rightarrow> machine \<Rightarrow> bool" where
  "acquired dev s \<longleftrightarrow> bus_state dev s = (True, LOW, True)"

text \<open>
  The state in which \<^verbatim>\<open>initialize\<close> reads the identifier: after \<^verbatim>\<open>pinMode\<close>, \<^verbatim>\<open>begin\<close>, the
  first \<^verbatim>\<open>unselect\<close> and the wake-up cycle (lines 75-79).
\<close>

definition init_probe :: "opcodes \<Rightarrow> SPIFlash \<Rightarrow> machine \<Rightarrow> machine" where
  "init_probe ops dev s =
     exchange dev [SPIFLASH_WAKE ops]
       (advance [PinModeOutput (slaveSelectPin dev), SpiBegin,
                 DigitalWrite (slaveSelectPin dev) HIGH, EndTransaction] 0 s)"




text \<open>
  \<open>m\<close> identifier reads in a row. \<open>probe_id s j\<close> is the identifier that read number \<open>j\<close> of
  \<^verbatim>\<open>found\<close> receives when \<^verbatim>\<open>found\<close> is entered in state \<open>s\<close>: the wake-up cycle takes one
  answer of the chip and every read three, of which the last two are the identifier.
  \<open>probe_ok s j\<close>: that identifier is not 0, not \<^verbatim>\<open>0xFFFF\<close>, and equal to the first one.
\<close>

definition id_reads :: "opcodes \<Rightarrow> SPIFlash \<Rightarrow> nat \<Rightarrow> machine \<Rightarrow> machine" where
  "id_reads ops dev m s = (exchange dev [SPIFLASH_IDREAD ops, 0, 0] ^^ m) s"

definition probe_id :: "machine \<Rightarrow> nat \<Rightarrow> u16" where
  "probe_id s j =
     push_bit 8 (ucast (miso s (Suc (Suc (rxpos s + 3 * j))))) OR
     ucast (miso s (Suc (Suc (Suc (rxpos s + 3 * j)))))"

definition probe_ok :: "machine \<Rightarrow> nat \<Rightarrow> bool" where
  "probe_ok s j \<longleftrightarrow> probe_id s j \<noteq> 0 \<and> probe_id s j \<noteq> 0xffff \<and> probe_id s j = probe_id s 0"

text \<open>An operation that, if it returns, returns with the bus released.\<close>

definition leaves_released :: "SPIFlash \<Rightarrow> machine option \<Rightarrow> bool" where
  "leaves_released dev m = (case m of None \<Rightarrow> True | Some t \<Rightarrow> released dev t)"

text \<open>A chip that never reports busy, whatever else it answers.\<close>

definition never_busy :: "machine \<Rightarrow> bool" where
  "never_busy s \<longleftrightarrow> (\<forall>i. miso s i AND 1 = 0)"

section \<open>Concrete values for evaluation\<close>

text \<open>
  The usual opcode values of the SPI NOR command set (the comment of line 45 names
  \<^verbatim>\<open>ABh\<close> for release from power-down), a device on pin 8 that expects the identifier
  \<^verbatim>\<open>0xEF30\<close>, a chip that answers 0 to everything and so is never busy, and a caller's
  buffer holding 0, 1, 2, ...
\<close>

definition nor_opcodes :: opcodes where
  "nor_opcodes =
     \<lparr>SPIFLASH_WRITEENABLE = 0x06, SPIFLASH_BLOCKERASE_4K = 0x20, SPIFLASH_BLOCKERASE_32K = 0x52,
      SPIFLASH_BLOCKERASE_64K = 0xD8, SPIFLASH_CHIPERASE = 0x60, SPIFLASH_STATUSREAD = 0x05,
      SPIFLASH_STATUSWRITE = 0x01, SPIFLASH_ARRAYREAD = 0x0B, SPIFLASH_ARRAYREADLOWFREQ = 0x03,
      SPIFLASH_SLEEP = 0xB9, SPIFLASH_WAKE = 0xAB, SPIFLASH_BYTEPAGEPROGRAM = 0x02,
      SPIFLASH_IDREAD = 0x9F, SPIFLASH_MACREAD = 0x4B\<rparr>"

definition dev0 :: SPIFlash where
  "dev0 = \<lparr>slaveSelectPin = 8, jedecID = 0xEF30, settings = 0\<rparr>"

definition idle_chip :: machine where
  "idle_chip = \<lparr>transcript = [], miso = (\<lambda>i. 0), rxpos = 0, UNIQUEID = replicate 8 0\<rparr>"

definition ramp :: "nat \<Rightarrow> u8" where
  "ramp i = of_nat i"

text \<open>
  A chip whose data line floats high (absent or asleep, lines 153-156): every status byte
  reads busy. Two chips that answer an identifier read with \<^verbatim>\<open>0xEF30\<close> and with
  \<^verbatim>\<open>0x1234\<close> (the wake-up cycle takes answer 0, the identifier opcode answer 1, the two
  identifier bytes answers 2 and 3).
\<close>

definition stuck_chip :: machine where
  "stuck_chip = \<lparr>transcript = [], miso = (\<lambda>i. 0xFF), rxpos = 0, UNIQUEID = replicate 8 0\<rparr>"


definition chip_1234 :: machine where
  "chip_1234 = \<lparr>transcript = [], miso = (\<lambda>i. if i = 2 then 0x12 else if i = 3 then 0x34 else 0),
                 rxpos = 0, UNIQUEID = replicate 8 0\<rparr>"

text \<open>
  A chip that answers every identifier read with \<^verbatim>\<open>0xEF30\<close>. Three chips for a read of four
  bytes (one status poll: answers 0 and 1; opcode, address and dummy byte: answers 2 to
  6; data: answers 7 to 10): all erased, first byte programmed, last byte programmed.
\<close>

definition steady_chip :: machine where
  "steady_chip = \<lparr>transcript = [],
     miso = (\<lambda>i. if i mod 3 = 2 then 0xEF else if i mod 3 = 0 then 0x30 else 0),
     rxpos = 0, UNIQUEID = replicate 8 0\<rparr>"




section \<open>Lemmas: primitives in normal form\<close>

lemma advance_sel [simp]:
  "transcript (advance es n s) = transcript s @ es"
  "rxpos (advance es n s) = rxpos s + n"
  "miso (advance es n s) = miso s"
  "UNIQUEID (advance es n s) = UNIQUEID s"
  by (simp_all add: advance_def)

lemma advance_advance: "advance es2 n2 (advance es1 n1 s) = advance (es1 @ es2) (n1 + n2) s"
  by (simp add: advance_def)

lemma xfers_append: "xfers rx p (as @ bs) = xfers rx p as @ xfers rx (p + length as) bs"
  by (induction as arbitrary: p) simp_all

lemma length_xfers [simp]: "length (xfers rx p bs) = length bs"
  by (induction bs arbitrary: p) simp_all

lemma select_opened: "select dev s = opened dev [] s"
  by (simp add: select_def emit_def opened_def advance_def)

lemma transfer_opened:
  "transfer b (opened dev outs s) = (miso s (rxpos s + length outs), opened dev (outs @ [b]) s)"
  by (simp add: transfer_def opened_def advance_def xfers_append)

lemma send_opened: "send b (opened dev outs s) = opened dev (outs @ [b]) s"
  by (simp add: send_def transfer_opened)

lemma unselect_opened: "unselect dev (opened dev outs s) = exchange dev outs s"
  by (simp add: unselect_def emit_def opened_def exchange_def advance_def)

lemma opened_sel [simp]:
  "rxpos (opened dev outs s) = rxpos s + length outs"
  "miso (opened dev outs s) = miso s"
  "UNIQUEID (opened dev outs s) = UNIQUEID s"
  by (simp_all add: opened_def)

lemma exchange_sel [simp]:
  "rxpos (exchange dev outs s) = rxpos s + length outs"
  "miso (exchange dev outs s) = miso s"
  "UNIQUEID (exchange dev outs s) = UNIQUEID s"
  by (simp_all add: exchange_def)

lemma polls_sel [simp]:
  "rxpos (polls ops dev k s) = rxpos s + 2 * k"
  "miso (polls ops dev k s) = miso s"
  "UNIQUEID (polls ops dev k s) = UNIQUEID s"
  by (induction k) (simp_all add: polls_def)

lemma polls_0 [simp]: "polls ops dev 0 s = s"
  by (simp add: polls_def)

lemma polls_Suc: "polls ops dev (Suc k) s = polls ops dev k (exchange dev [SPIFLASH_STATUSREAD ops, 0] s)"
  by (simp add: polls_def funpow_swap1)

lemma send_addr_opened:
  "send_addr addr (opened dev outs s) =
     opened dev (outs @ [ucast (drop_bit 16 addr), ucast (drop_bit 8 addr), ucast addr]) s"
  by (simp add: send_addr_def send_opened)

lemma recv_opened:
  "recv k (opened dev outs s) =
     (map (\<lambda>i. miso s (rxpos s + length outs + i)) [0..<k], opened dev (outs @ replicate k 0) s)"
proof (induction k arbitrary: outs)
  case 0
  then show ?case by simp
next
  case (Suc k)
  have "map (\<lambda>i. miso s (rxpos s + length outs + i)) [0..<Suc k] =
        miso s (rxpos s + length outs) # map (\<lambda>i. miso s (rxpos s + length (outs @ [0]) + i)) [0..<k]"
    by (simp add: upt_conv_Cons map_Suc_upt [symmetric] del: upt_Suc)
  then show ?case
    by (simp add: transfer_opened Suc.IH replicate_app_Cons_same del: upt_Suc)
qed

lemma send_payload_opened:
  "send_payload buf offset n (opened dev outs s) =
     opened dev (outs @ map (\<lambda>i. buf (unat offset + i)) [0..<unat n]) s"
proof -
  have "fold (\<lambda>i. send (buf (m + i))) [0..<k] (opened dev outs s)
        = opened dev (outs @ map (\<lambda>i. buf (m + i)) [0..<k]) s" for m k
    by (induction k) (simp_all add: send_opened)
  then show ?thesis by (simp add: send_payload_def)
qed

lemma readStatus_eq:
  "readStatus ops dev s = (miso s (Suc (rxpos s)), exchange dev [SPIFLASH_STATUSREAD ops, 0] s)"
  by (simp add: readStatus_def select_opened send_opened transfer_opened unselect_opened)

lemma busy_eq:
  "busy ops dev s = (miso s (Suc (rxpos s)) AND 1 \<noteq> 0, exchange dev [SPIFLASH_STATUSREAD ops, 0] s)"
  by (simp add: busy_def readStatus_eq)

lemma readDeviceId_eq:
  "readDeviceId ops dev s =
     (push_bit 8 (ucast (miso s (Suc (rxpos s)))) OR ucast (miso s (Suc (Suc (rxpos s)))),
      exchange dev [SPIFLASH_IDREAD ops, 0, 0] s)"
  by (simp add: readDeviceId_def select_opened send_opened transfer_opened unselect_opened Let_def)

lemma settles_0: "settles s 0 \<longleftrightarrow> miso s (Suc (rxpos s)) AND 1 = 0"
  by (simp add: settles_def)

lemma all_less_Suc_shift: "(\<forall>j<Suc k. P j) \<longleftrightarrow> P 0 \<and> (\<forall>j<k. P (Suc j))"
  by (metis less_Suc_eq_0_disj Suc_less_eq zero_less_Suc)

lemma settles_Suc:
  "settles s (Suc k) \<longleftrightarrow>
     miso s (Suc (rxpos s)) AND 1 \<noteq> 0 \<and> settles (exchange dev [SPIFLASH_STATUSREAD ops, 0] s) k"
  by (simp add: settles_def all_less_Suc_shift [of k] add.assoc del: All_less_Suc)

section \<open>Lemmas: the busy-wait loop\<close>

lemma while_busy_settles:
  "settles s k \<Longrightarrow> while_busy ops dev s = Some (polls ops dev (Suc k) s)"
proof (induction k arbitrary: s)
  case 0
  then show ?case
    by (subst while_busy.simps) (simp add: busy_eq settles_0 polls_def)
next
  case (Suc k)
  from Suc.prems have b: "miso s (Suc (rxpos s)) AND 1 \<noteq> 0"
    and r: "settles (exchange dev [SPIFLASH_STATUSREAD ops, 0] s) k"
    by (simp_all add: settles_Suc [of s k dev ops])
  show ?case
    by (subst while_busy.simps) (simp add: busy_eq b Suc.IH [OF r] polls_Suc [of ops dev "Suc k"])
qed

lemma while_busy_Some:
  assumes ret: "while_busy ops dev s = Some s'"
  shows "\<exists>k. settles s k \<and> s' = polls ops dev (Suc k) s"
proof (rule while_busy.raw_induct
    [where P = "\<lambda>ops dev s s'. \<exists>k. settles s k \<and> s' = polls ops dev (Suc k) s", OF _ ret])
  fix f :: "opcodes \<Rightarrow> SPIFlash \<Rightarrow> machine \<Rightarrow> machine option" and ops dev s s'
  assume IH: "\<And>ops dev s s'. f ops dev s = Some s' \<Longrightarrow>
                 \<exists>k. settles s k \<and> s' = polls ops dev (Suc k) s"
    and step: "(case busy ops dev s of (b, s1) \<Rightarrow> if b then f ops dev s1 else Some s1) = Some s'"
  let ?s1 = "exchange dev [SPIFLASH_STATUSREAD ops, 0] s"
  show "\<exists>k. settles s k \<and> s' = polls ops dev (Suc k) s"
  proof (cases "miso s (Suc (rxpos s)) AND 1 = 0")
    case True
    with step have "s' = polls ops dev (Suc 0) s"
      by (simp add: busy_eq polls_def)
    moreover from True have "settles s 0"
      by (simp add: settles_0)
    ultimately show ?thesis by (intro exI [of _ 0] conjI)
  next
    case False
    with step have "f ops dev ?s1 = Some s'"
      by (simp add: busy_eq)
    from IH [OF this] obtain k where
      k: "settles ?s1 k" "s' = polls ops dev (Suc k) ?s1"
      by (elim exE conjE)
    have "settles s (Suc k)"
      using False k(1) by (simp add: settles_Suc [of s k dev ops])
    moreover have "s' = polls ops dev (Suc (Suc k)) s"
      using k(2) by (simp add: polls_Suc [of ops dev "Suc k" s])
    ultimately show ?thesis by (intro exI [of _ "Suc k"] conjI)
  qed
qed

lemma while_busy_iff:
  "while_busy ops dev s = Some s' \<longleftrightarrow> (\<exists>k. settles s k \<and> s' = polls ops dev (Suc k) s)"
proof
  assume "while_busy ops dev s = Some s'"
  then show "\<exists>k. settles s k \<and> s' = polls ops dev (Suc k) s"
    by (rule while_busy_Some)
next
  assume "\<exists>k. settles s k \<and> s' = polls ops dev (Suc k) s"
  then obtain k where "settles s k" "s' = polls ops dev (Suc k) s"
    by (elim exE conjE)
  then show "while_busy ops dev s = Some s'"
    by (simp add: while_busy_settles)
qed

section \<open>Lemmas: the dispatcher and the write loop\<close>

lemma command_False:
  "command ops dev cmd False s = map_option (opened dev [cmd]) (gate ops dev cmd s)"
  by (subst command.simps, cases "while_busy ops dev s")
    (simp_all add: gate_def select_opened send_opened)

lemma command_eq:
  "command ops dev cmd isWrite s = map_option (opened dev [cmd]) (prelude ops dev cmd isWrite s)"
proof (cases isWrite)
  case False
  then show ?thesis
    by (simp add: command_False prelude_def)
next
  case True
  show ?thesis
  proof (cases "gate ops dev (SPIFLASH_WRITEENABLE ops) s")
    case None
    then show ?thesis
      using True by (subst command.simps) (simp add: command_False prelude_def)
  next
    case (Some s0)
    show ?thesis
    proof (cases "gate ops dev cmd (exchange dev [SPIFLASH_WRITEENABLE ops] s0)")
      case None
      with Some True show ?thesis
        by (subst command.simps)
          (simp add: command_False prelude_def unselect_opened gate_def split: if_splits)
    next
      case inner: (Some s2)
      with Some True show ?thesis
        by (subst command.simps)
          (simp add: command_False prelude_def unselect_opened gate_def select_opened
            send_opened split: if_splits)
    qed
  qed
qed

lemma send_addr_opened':
  "send_addr addr (opened dev outs s) = opened dev (outs @ addr_bytes addr) s"
  by (simp add: send_addr_opened addr_bytes_def)

lemma writeByte_eq:
  "writeByte ops dev addr byt s =
     cycle ops dev True (SPIFLASH_BYTEPAGEPROGRAM ops) (addr_bytes addr @ [byt]) s"
  unfolding writeByte_def cycle_def
  by (cases "prelude ops dev (SPIFLASH_BYTEPAGEPROGRAM ops) True s")
    (simp_all add: command_eq send_addr_opened' send_opened unselect_opened)

lemma writeBytes_loop_plan:
  "0 < maxBytes \<Longrightarrow>
    writeBytes_loop ops dev buf addr offset len maxBytes s =
      write_cycles ops dev (SPIFLASH_BYTEPAGEPROGRAM ops)
        (map (chunk_args buf) (writeBytes_plan addr offset len maxBytes)) s"
proof (induction addr offset len maxBytes arbitrary: s rule: writeBytes_plan.induct)
  case (1 addr offset len maxBytes)
  show ?case
  proof (cases "0 < len")
    case False
    then show ?thesis
      by (subst writeBytes_loop.simps, subst writeBytes_plan.simps) simp
  next
    case True
    define n where "n = (if len \<le> maxBytes then len else maxBytes)"
    let ?rest = "writeBytes_plan (addr + ucast n) (offset + n) (len - n) 256"
    have IH: "writeBytes_loop ops dev buf (addr + ucast n) (offset + n) (len - n) 256 t =
      write_cycles ops dev (SPIFLASH_BYTEPAGEPROGRAM ops) (map (chunk_args buf) ?rest) t" for t
      using "1.IH" [of n t] True "1.prems" by (simp add: n_def)
    have body: "command ops dev (SPIFLASH_BYTEPAGEPROGRAM ops) True s \<bind>
        (\<lambda>s1. writeBytes_loop ops dev buf (addr + ucast n) (offset + n) (len - n) 256
                 (unselect dev (send_payload buf offset n (send_addr addr s1)))) =
      cycle ops dev True (SPIFLASH_BYTEPAGEPROGRAM ops) (chunk_args buf (addr, offset, n)) s \<bind>
        write_cycles ops dev (SPIFLASH_BYTEPAGEPROGRAM ops) (map (chunk_args buf) ?rest)"
      by (cases "prelude ops dev (SPIFLASH_BYTEPAGEPROGRAM ops) True s")
        (simp_all add: command_eq cycle_def chunk_args_def chunk_start_def chunk_payload_def
          IH send_addr_opened' send_payload_opened unselect_opened)
    show ?thesis
      using True "1.prems" body
      by (subst writeBytes_loop.simps, subst writeBytes_plan.simps) (simp add: n_def Let_def)
  qed
qed

section \<open>Lemmas: the chunk plan\<close>

lemma unat_ucast_mod: "unat (ucast w :: 'c::len word) = unat w mod 2 ^ LENGTH('c)"
  by (simp add: unsigned_ucast_eq take_bit_eq_mod)

lemma unat_first_cap: "unat (ucast (256 - addr mod 256 :: u32) :: u16) = 256 - unat addr mod 256"
proof -
  have m: "unat (addr mod 256) = unat addr mod 256"
    by (simp add: unat_mod)
  have "addr mod 256 \<le> 256"
    by (simp add: word_le_nat_alt m less_imp_le)
  then have "unat (256 - addr mod 256) = 256 - unat addr mod 256"
    by (simp add: unat_sub m)
  moreover have "unat (ucast (256 - addr mod 256 :: u32) :: u16) = unat (256 - addr mod 256) mod 2 ^ 16"
    by (simp add: unat_ucast_mod)
  ultimately show ?thesis by simp
qed

lemma first_cap_pos: "0 < (ucast (256 - addr mod 256 :: u32) :: u16)"
proof -
  have "unat addr mod 256 < 256" by simp
  then have "0 < unat (ucast (256 - addr mod 256 :: u32) :: u16)"
    unfolding unat_first_cap by linarith
  then show ?thesis by (simp add: word_less_nat_alt)
qed

lemma unat_addr_step: "unat (addr + ucast (n :: u16) :: u32) mod 256 = (unat addr + unat n) mod 256"
proof -
  have "unat (ucast n :: u32) = unat n"
    using unsigned_less [of n, where 'a = nat] by (simp add: unat_ucast_mod)
  then have "unat (addr + ucast n) = (unat addr + unat n) mod 2 ^ 32"
    by (simp add: unat_word_ariths)
  moreover have "(256::nat) dvd 2 ^ 32" by simp
  ultimately show ?thesis
    by (simp add: mod_mod_cancel)
qed

lemma same_page: "0 < n \<Longrightarrow> n \<le> 256 - a mod 256 \<Longrightarrow> a div 256 = (a + n - 1) div (256::nat)"
proof -
  assume n: "0 < n" "n \<le> 256 - a mod 256"
  have "a + n - 1 = (a mod 256 + n - 1) + a div 256 * 256"
    using n by simp
  moreover have "a mod 256 + n - 1 < 256"
    using n by simp
  ultimately show ?thesis
    by simp
qed

lemma aligned_next: "n = 256 - a mod 256 \<Longrightarrow> (a + n) mod 256 = (0::nat)"
proof -
  assume "n = 256 - a mod 256"
  then have "a + n = 256 + a div 256 * 256"
    using div_mult_mod_eq [of a 256] by linarith
  then show ?thesis by simp
qed

lemma plan_Nil: "\<not> (0 < len \<and> 0 < maxBytes) \<Longrightarrow> writeBytes_plan addr offset len maxBytes = []"
  by (subst writeBytes_plan.simps) simp

lemma plan_Cons:
  "0 < len \<Longrightarrow> 0 < maxBytes \<Longrightarrow>
   writeBytes_plan addr offset len maxBytes =
     (addr, offset, if len \<le> maxBytes then len else maxBytes) #
     writeBytes_plan (addr + ucast (if len \<le> maxBytes then len else maxBytes))
       (offset + (if len \<le> maxBytes then len else maxBytes))
       (len - (if len \<le> maxBytes then len else maxBytes)) 256"
  by (subst writeBytes_plan.simps) (simp add: Let_def)

lemma plan_in_page:
  "len = 0 \<or> unat maxBytes = 256 - unat addr mod 256 \<Longrightarrow>
   (st, off, k) \<in> set (writeBytes_plan addr offset len maxBytes) \<Longrightarrow>
   0 < unat k \<and> unat st div 256 = (unat st + unat k - 1) div 256"
proof (induction addr offset len maxBytes rule: writeBytes_plan.induct)
  case (1 addr offset len maxBytes)
  show ?case
  proof (cases "0 < len \<and> 0 < maxBytes")
    case False
    with "1.prems"(2) show ?thesis
      by (simp add: plan_Nil)
  next
    case True
    define n where "n = (if len \<le> maxBytes then len else maxBytes)"
    from True have "len \<noteq> 0" by auto
    with "1.prems"(1) have cap: "unat maxBytes = 256 - unat addr mod 256"
      by simp
    from True have n: "0 < unat n" "unat n \<le> unat maxBytes"
      by (simp_all add: n_def word_less_nat_alt word_le_nat_alt)
    have rest: "len - n = 0 \<or> unat (256 :: u16) = 256 - unat (addr + ucast n) mod 256"
    proof (cases "len \<le> maxBytes")
      case True
      then show ?thesis by (simp add: n_def)
    next
      case False
      then have "unat n = 256 - unat addr mod 256"
        by (simp add: n_def cap)
      then have "unat (addr + ucast n) mod 256 = 0"
        by (simp only: unat_addr_step aligned_next)
      then show ?thesis by simp
    qed
    from "1.prems"(2) True
    have "(st, off, k) = (addr, offset, n) \<or>
          (st, off, k) \<in> set (writeBytes_plan (addr + ucast n) (offset + n) (len - n) 256)"
      by (simp add: plan_Cons n_def)
    then show ?thesis
    proof
      assume "(st, off, k) = (addr, offset, n)"
      then show ?thesis
        using n cap same_page [of "unat n" "unat addr"] by simp
    next
      assume "(st, off, k) \<in> set (writeBytes_plan (addr + ucast n) (offset + n) (len - n) 256)"
      then show ?thesis
        using "1.IH" [OF True n_def rest] by simp
    qed
  qed
qed

lemma plan_aligned:
  "maxBytes = 256 \<Longrightarrow> len = 0 \<or> unat addr mod 256 = 0 \<Longrightarrow>
   (st, off, k) \<in> set (writeBytes_plan addr offset len maxBytes) \<Longrightarrow>
   unat st mod 256 = 0 \<and> unat k \<le> 256"
proof (induction addr offset len maxBytes rule: writeBytes_plan.induct)
  case (1 addr offset len maxBytes)
  note mb = \<open>maxBytes = 256\<close>
  show ?case
  proof (cases "0 < len")
    case False
    with "1.prems"(3) show ?thesis
      by (simp add: plan_Nil)
  next
    case True
    define n where "n = (if len \<le> maxBytes then len else maxBytes)"
    from True have "len \<noteq> 0" by auto
    with "1.prems"(2) have al: "unat addr mod 256 = 0"
      by simp
    have n: "unat n \<le> 256"
      by (simp add: n_def mb word_le_nat_alt)
    have rest: "len - n = 0 \<or> unat (addr + ucast n) mod 256 = 0"
    proof (cases "len \<le> maxBytes")
      case True
      then show ?thesis by (simp add: n_def)
    next
      case False
      then have "unat n = 256"
        by (simp add: n_def mb)
      then have "unat (addr + ucast n) mod 256 = 0"
        using al by (simp add: unat_addr_step)
      then show ?thesis by simp
    qed
    have pos: "0 < len \<and> 0 < maxBytes"
      using True by (simp add: mb)
    from "1.prems"(3) pos
    have "(st, off, k) = (addr, offset, n) \<or>
          (st, off, k) \<in> set (writeBytes_plan (addr + ucast n) (offset + n) (len - n) 256)"
      by (simp add: plan_Cons n_def)
    then show ?thesis
    proof
      assume "(st, off, k) = (addr, offset, n)"
      then show ?thesis
        using n al by simp
    next
      assume "(st, off, k) \<in> set (writeBytes_plan (addr + ucast n) (offset + n) (len - n) 256)"
      then show ?thesis
        using "1.IH" [OF pos n_def _ rest] by simp
    qed
  qed
qed


lemma chunk_start_simp [simp]: "chunk_start (st, off, k) = st"
  by (simp add: chunk_start_def)

lemma chunk_len_simp [simp]: "chunk_len (st, off, k) = unat k"
  by (simp add: chunk_len_def)





lemma writeBytes_eq_cycles:
  "writeBytes ops dev a buf n s =
     write_cycles ops dev (SPIFLASH_BYTEPAGEPROGRAM ops)
       (map (chunk_args buf) (writeBytes_chunks a n)) s"
  unfolding writeBytes_def writeBytes_chunks_def
  by (rule writeBytes_loop_plan [OF first_cap_pos])

lemma chunks_Cons:
  "n \<noteq> 0 \<Longrightarrow> \<exists>k rest. writeBytes_chunks a n = (a, 0, k) # rest \<and>
     unat k = min (unat n) (256 - unat a mod 256) \<and>
     (\<forall>c \<in> set rest. unat (chunk_start c) mod 256 = 0 \<and> chunk_len c \<le> 256)"
proof -
  assume n: "n \<noteq> 0"
  define mb :: u16 where "mb = ucast (256 - a mod 256)"
  define k where "k = (if n \<le> mb then n else mb)"
  have mb: "0 < mb" "unat mb = 256 - unat a mod 256"
    by (simp_all add: mb_def first_cap_pos unat_first_cap)
  from n have pos: "0 < n"
    by (simp add: word_greater_zero_iff)
  have eq: "writeBytes_chunks a n = (a, 0, k) # writeBytes_plan (a + ucast k) (0 + k) (n - k) 256"
    unfolding writeBytes_chunks_def mb_def [symmetric] k_def
    by (rule plan_Cons [OF pos mb(1)])
  have k: "unat k = min (unat n) (256 - unat a mod 256)"
    using mb(2) by (auto simp: k_def word_le_nat_alt min_def)
  have rest: "n - k = 0 \<or> unat (a + ucast k) mod 256 = 0"
  proof (cases "n \<le> mb")
    case True
    then show ?thesis by (simp add: k_def)
  next
    case False
    then have "unat k = 256 - unat a mod 256"
      by (simp add: k_def mb(2))
    then have "unat (a + ucast k) mod 256 = 0"
      by (simp only: unat_addr_step aligned_next)
    then show ?thesis ..
  qed
  have "\<forall>c \<in> set (writeBytes_plan (a + ucast k) (0 + k) (n - k) 256).
          unat (chunk_start c) mod 256 = 0 \<and> chunk_len c \<le> 256"
  proof
    fix c assume c: "c \<in> set (writeBytes_plan (a + ucast k) (0 + k) (n - k) 256)"
    obtain st off l where [simp]: "c = (st, off, l)"
      by (cases c)
    from plan_aligned [OF refl rest] c show "unat (chunk_start c) mod 256 = 0 \<and> chunk_len c \<le> 256"
      by simp
  qed
  with eq k show ?thesis by blast
qed

lemma chunks_in_page:
  "c \<in> set (writeBytes_chunks a n) \<Longrightarrow>
   0 < chunk_len c \<and>
   unat (chunk_start c) div 256 = (unat (chunk_start c) + chunk_len c - 1) div 256"
proof -
  assume c: "c \<in> set (writeBytes_chunks a n)"
  obtain st off l where [simp]: "c = (st, off, l)"
    by (cases c)
  have "n = 0 \<or> unat (ucast (256 - a mod 256 :: u32) :: u16) = 256 - unat a mod 256"
    by (simp add: unat_first_cap)
  from plan_in_page [OF this] c show ?thesis
    by (simp add: writeBytes_chunks_def)
qed

lemma chunks_eval: "writeBytes_chunks 0xFE 4 = [(0xFE, 0, 2), (0x100, 2, 2)]"
  by (simp add: writeBytes_chunks_def writeBytes_plan.simps)

section \<open>Lemmas: observations on the transcript\<close>

lemma transcript_opened:
  "transcript (opened dev outs s) =
     transcript s @ [BeginTransaction (settings dev), DigitalWrite (slaveSelectPin dev) LOW]
       @ xfers (miso s) (rxpos s) outs"
  by (simp add: opened_def)

lemma transcript_exchange:
  "transcript (exchange dev outs s) = transcript s @ cycle_evs dev (miso s) (rxpos s) outs"
  by (simp add: exchange_def cycle_evs_def)

lemma transcript_polls:
  "transcript (polls ops dev k s) = transcript s @ poll_evs ops dev (miso s) (rxpos s) k"
proof (induction k arbitrary: s)
  case 0
  show ?case by simp
next
  case (Suc k)
  show ?case
    by (simp add: polls_Suc Suc.IH transcript_exchange)
qed

lemma frames_xfers:
  "foldl (frame_step pin) (fs, Some f) (xfers rx p outs) = (fs, Some (f @ outs))"
  by (induction outs arbitrary: f p) simp_all

lemma frames_cycle:
  "foldl (frame_step (slaveSelectPin dev)) (fs, cur) (cycle_evs dev rx p outs) =
     (fs @ flush cur @ [outs], None)"
  by (simp add: cycle_evs_def frames_xfers)

lemma frames_polls:
  "foldl (frame_step (slaveSelectPin dev)) (fs, None) (poll_evs ops dev rx p k) =
     (fs @ replicate k [SPIFLASH_STATUSREAD ops, 0], None)"
proof (induction k arbitrary: fs p)
  case 0
  show ?case by simp
next
  case (Suc k)
  show ?case
    by (simp add: frames_cycle Suc.IH replicate_app_Cons_same)
qed

lemma bus_xfers:
  "foldl (bus_step pin) (True, LOW, ok) (xfers rx p outs) = (True, LOW, ok)"
  by (induction outs arbitrary: p) simp_all

lemma bus_cycle:
  "foldl (bus_step (slaveSelectPin dev)) (txn, cs, ok) (cycle_evs dev rx p outs) = (False, HIGH, ok)"
  by (simp add: cycle_evs_def bus_xfers)

lemma released_exchange: "released dev s \<Longrightarrow> released dev (exchange dev outs s)"
  by (simp add: released_def bus_state_def transcript_exchange bus_cycle)

lemma released_polls: "released dev s \<Longrightarrow> released dev (polls ops dev k s)"
  by (induction k arbitrary: s) (simp_all add: polls_Suc released_exchange)

lemma acquired_opened: "released dev s \<Longrightarrow> acquired dev (opened dev outs s)"
  by (simp add: released_def acquired_def bus_state_def transcript_opened bus_xfers)

lemma released_while_busy:
  "while_busy ops dev s = Some s' \<Longrightarrow> released dev s \<Longrightarrow> released dev s'"
  by (auto simp: while_busy_iff released_polls)

lemma released_gate:
  "gate ops dev cmd s = Some s' \<Longrightarrow> released dev s \<Longrightarrow> released dev s'"
  by (auto simp: gate_def released_while_busy split: if_splits)

lemma released_prelude:
  "prelude ops dev cmd isWrite s = Some s' \<Longrightarrow> released dev s \<Longrightarrow> released dev s'"
  by (auto simp: prelude_def bind_eq_Some_conv split: if_splits
      intro: released_gate released_exchange)

lemma released_cycle:
  "cycle ops dev isWrite cmd args s = Some s' \<Longrightarrow> released dev s \<Longrightarrow> released dev s'"
  by (auto simp: cycle_def intro: released_prelude released_exchange)

section \<open>Lemmas: the operations as command cycles\<close>

lemma length_addr_bytes [simp]: "length (addr_bytes addr) = 3"
  by (simp add: addr_bytes_def)

lemma chipErase_eq: "chipErase ops dev s = cycle ops dev True (SPIFLASH_CHIPERASE ops) [] s"
  unfolding chipErase_def cycle_def
  by (cases "prelude ops dev (SPIFLASH_CHIPERASE ops) True s")
    (simp_all add: command_eq unselect_opened)

lemma blockErase4K_eq:
  "blockErase4K ops dev addr s = cycle ops dev True (SPIFLASH_BLOCKERASE_4K ops) (addr_bytes addr) s"
  unfolding blockErase4K_def cycle_def
  by (cases "prelude ops dev (SPIFLASH_BLOCKERASE_4K ops) True s")
    (simp_all add: command_eq send_addr_opened' unselect_opened)

lemma blockErase32K_eq:
  "blockErase32K ops dev addr s = cycle ops dev True (SPIFLASH_BLOCKERASE_32K ops) (addr_bytes addr) s"
  unfolding blockErase32K_def cycle_def
  by (cases "prelude ops dev (SPIFLASH_BLOCKERASE_32K ops) True s")
    (simp_all add: command_eq send_addr_opened' unselect_opened)

lemma blockErase64K_eq:
  "blockErase64K ops dev addr s = cycle ops dev True (SPIFLASH_BLOCKERASE_64K ops) (addr_bytes addr) s"
  unfolding blockErase64K_def cycle_def
  by (cases "prelude ops dev (SPIFLASH_BLOCKERASE_64K ops) True s")
    (simp_all add: command_eq send_addr_opened' unselect_opened)

lemma sleep_eq: "sleep ops dev s = cycle ops dev False (SPIFLASH_SLEEP ops) [] s"
  unfolding sleep_def cycle_def
  by (cases "prelude ops dev (SPIFLASH_SLEEP ops) False s")
    (simp_all add: command_eq unselect_opened)

lemma wakeup_eq: "wakeup ops dev s = Some (exchange dev [SPIFLASH_WAKE ops] s)"
  unfolding wakeup_def
  by (simp add: command_eq prelude_def gate_def unselect_opened)

lemma readByte_eq:
  "readByte ops dev addr s =
     map_option (\<lambda>s1. (miso s1 (rxpos s1 + 4),
                        exchange dev (SPIFLASH_ARRAYREADLOWFREQ ops # addr_bytes addr @ [0]) s1))
       (prelude ops dev (SPIFLASH_ARRAYREADLOWFREQ ops) False s)"
  unfolding readByte_def
  by (cases "prelude ops dev (SPIFLASH_ARRAYREADLOWFREQ ops) False s")
    (simp_all add: command_eq send_addr_opened' transfer_opened unselect_opened)

lemma readBytes_eq:
  "readBytes ops dev addr len s =
     map_option (\<lambda>s1. (map (\<lambda>i. miso s1 (rxpos s1 + 5 + i)) [0..<unat len],
                        exchange dev (SPIFLASH_ARRAYREAD ops # addr_bytes addr @ 0 # replicate (unat len) 0) s1))
       (prelude ops dev (SPIFLASH_ARRAYREAD ops) False s)"
  unfolding readBytes_def
  by (cases "prelude ops dev (SPIFLASH_ARRAYREAD ops) False s")
    (simp_all add: command_eq send_addr_opened' send_opened recv_opened unselect_opened)



lemma addr_bytes_example: "addr_bytes 0x012345 = [0x01, 0x23, 0x45]"
  by (simp add: addr_bytes_def drop_bit_eq_div)

lemma map_option_snd_case:
  "map_option snd (map_option (\<lambda>s1. (f s1, g s1)) m) = map_option g m"
  by (cases m) simp_all

section \<open>Lemmas: responsive and unresponsive chips, the prelude\<close>

lemma never_busy_settles: "never_busy s \<Longrightarrow> settles s 0"
  by (simp add: never_busy_def settles_def)

lemma never_busy_exchange [simp]: "never_busy (exchange dev outs s) = never_busy s"
  by (simp add: never_busy_def)

lemma never_busy_polls [simp]: "never_busy (polls ops dev k s) = never_busy s"
  by (simp add: never_busy_def)

lemma never_busy_idle_chip: "never_busy idle_chip"
  by (simp add: never_busy_def idle_chip_def)

lemma while_busy_never_busy:
  "never_busy s \<Longrightarrow> while_busy ops dev s = Some (polls ops dev (Suc 0) s)"
  by (rule while_busy_settles [OF never_busy_settles])

lemma while_busy_None: "(\<forall>k. \<not> settles s k) \<Longrightarrow> while_busy ops dev s = None"
proof (rule ccontr)
  assume a: "\<forall>k. \<not> settles s k" and "while_busy ops dev s \<noteq> None"
  then obtain s' where "while_busy ops dev s = Some s'"
    by blast
  then show False
    using a by (simp add: while_busy_iff)
qed

lemma prelude_write_iff:
  assumes "SPIFLASH_WRITEENABLE ops \<noteq> SPIFLASH_WAKE ops" "cmd \<noteq> SPIFLASH_WAKE ops"
  shows "prelude ops dev cmd True s = Some s1 \<longleftrightarrow>
     (\<exists>k1 k2. settles s k1 \<and>
        settles (exchange dev [SPIFLASH_WRITEENABLE ops] (polls ops dev (Suc k1) s)) k2 \<and>
        s1 = polls ops dev (Suc k2)
               (exchange dev [SPIFLASH_WRITEENABLE ops] (polls ops dev (Suc k1) s)))"
  using assms unfolding prelude_def gate_def
  by (auto simp: bind_eq_Some_conv while_busy_iff)

lemma prelude_read_iff:
  assumes "cmd \<noteq> SPIFLASH_WAKE ops"
  shows "prelude ops dev cmd False s = Some s1 \<longleftrightarrow>
     (\<exists>k. settles s k \<and> s1 = polls ops dev (Suc k) s)"
  using assms unfolding prelude_def gate_def
  by (auto simp: while_busy_iff)

lemma prelude_write_never_busy:
  assumes "SPIFLASH_WRITEENABLE ops \<noteq> SPIFLASH_WAKE ops" "cmd \<noteq> SPIFLASH_WAKE ops"
    and "never_busy s"
  shows "prelude ops dev cmd True s =
     Some (polls ops dev (Suc 0) (exchange dev [SPIFLASH_WRITEENABLE ops] (polls ops dev (Suc 0) s)))"
  using assms unfolding prelude_def gate_def
  by (simp add: while_busy_never_busy)

lemma issued_self [simp]: "issued s s = []"
  by (simp add: issued_def)

lemma cycle_write_frames:
  assumes "SPIFLASH_WRITEENABLE ops \<noteq> SPIFLASH_WAKE ops" "cmd \<noteq> SPIFLASH_WAKE ops"
    and "cycle ops dev True cmd args s = Some s'"
  shows "\<exists>k1 k2. mosi_frames (slaveSelectPin dev) (issued s s') =
     replicate (Suc k1) [SPIFLASH_STATUSREAD ops, 0] @ [[SPIFLASH_WRITEENABLE ops]]
     @ replicate (Suc k2) [SPIFLASH_STATUSREAD ops, 0] @ [cmd # args]"
proof -
  from assms(3) obtain s1 where s1: "prelude ops dev cmd True s = Some s1"
    and s': "s' = exchange dev (cmd # args) s1"
    by (auto simp: cycle_def)
  from s1 obtain k1 k2 where
    "s1 = polls ops dev (Suc k2)
               (exchange dev [SPIFLASH_WRITEENABLE ops] (polls ops dev (Suc k1) s))"
    unfolding prelude_write_iff [OF assms(1,2)] by blast
  with s' have "mosi_frames (slaveSelectPin dev) (issued s s') =
     replicate (Suc k1) [SPIFLASH_STATUSREAD ops, 0] @ [[SPIFLASH_WRITEENABLE ops]]
     @ replicate (Suc k2) [SPIFLASH_STATUSREAD ops, 0] @ [cmd # args]"
    unfolding issued_def mosi_frames_def
    by (simp add: transcript_exchange transcript_polls frames_cycle frames_polls
        del: poll_evs.simps replicate.simps)
  then show ?thesis by blast
qed

lemma polls_Suc_outer:
  "polls ops dev (Suc k) s = exchange dev [SPIFLASH_STATUSREAD ops, 0] (polls ops dev k s)"
  by (simp add: polls_def)

lemma while_busy_always_busy:
  "(\<forall>i. miso s i AND 1 \<noteq> 0) \<Longrightarrow> while_busy ops dev s = None"
  by (rule while_busy_None) (simp add: settles_def)

lemma extends_exchange:
  "\<exists>es. transcript t = transcript s @ es \<Longrightarrow>
   \<exists>es. transcript (exchange dev outs t) = transcript s @ es"
  by (auto simp: transcript_exchange)

lemma extends_polls:
  "\<exists>es. transcript t = transcript s @ es \<Longrightarrow>
   \<exists>es. transcript (polls ops dev k t) = transcript s @ es"
  by (auto simp: transcript_polls)

lemma extends_gate:
  "gate ops dev cmd t = Some t' \<Longrightarrow> \<exists>es. transcript t = transcript s @ es \<Longrightarrow>
   \<exists>es. transcript t' = transcript s @ es"
  by (auto simp: gate_def while_busy_iff transcript_polls split: if_splits)

lemma gate_last_poll:
  assumes "cmd \<noteq> SPIFLASH_WAKE ops" "gate ops dev cmd s0 = Some s1"
    and "\<exists>es. transcript s0 = transcript s @ es"
  shows "\<exists>t es. transcript t = transcript s @ es \<and> \<not> fst (busy ops dev t) \<and>
           s1 = snd (busy ops dev t)"
proof -
  from assms(1,2) obtain k where k: "settles s0 k" "s1 = polls ops dev (Suc k) s0"
    by (auto simp: gate_def while_busy_iff)
  let ?t = "polls ops dev k s0"
  have "\<exists>es. transcript ?t = transcript s @ es"
    by (rule extends_polls [OF assms(3)])
  moreover have "\<not> fst (busy ops dev ?t)"
    using k(1) by (simp add: busy_eq settles_def)
  moreover have "s1 = snd (busy ops dev ?t)"
    using k(2) by (simp add: busy_eq polls_Suc_outer)
  ultimately show ?thesis by blast
qed

lemma command_last_poll:
  assumes "cmd \<noteq> SPIFLASH_WAKE ops" "command ops dev cmd isWrite s = Some s'"
  shows "\<exists>t es. transcript t = transcript s @ es \<and> \<not> fst (busy ops dev t) \<and>
           s' = send cmd (select dev (snd (busy ops dev t)))"
proof -
  from assms(2) obtain s1 where s1: "prelude ops dev cmd isWrite s = Some s1"
    and s': "s' = opened dev [cmd] s1"
    by (auto simp: command_eq)
  from s1 obtain s0 where g: "gate ops dev cmd s0 = Some s1"
    and ext: "\<exists>es. transcript s0 = transcript s @ es"
  proof (cases isWrite)
    case False
    with s1 have "gate ops dev cmd s = Some s1"
      by (simp add: prelude_def)
    moreover have "\<exists>es. transcript s = transcript s @ es"
      by simp
    ultimately show ?thesis by (rule that)
  next
    case True
    with s1 obtain s00 where a: "gate ops dev (SPIFLASH_WRITEENABLE ops) s = Some s00"
      and b: "gate ops dev cmd (exchange dev [SPIFLASH_WRITEENABLE ops] s00) = Some s1"
      by (auto simp: prelude_def bind_eq_Some_conv)
    have "\<exists>es. transcript s00 = transcript s @ es"
      by (rule extends_gate [OF a]) simp
    then have "\<exists>es. transcript (exchange dev [SPIFLASH_WRITEENABLE ops] s00) = transcript s @ es"
      by (rule extends_exchange)
    with b show ?thesis by (rule that)
  qed
  from gate_last_poll [OF assms(1) g ext] s' show ?thesis
    by (auto simp: select_opened send_opened)
qed

lemma command_always_busy:
  assumes "cmd \<noteq> SPIFLASH_WAKE ops" "\<forall>i. miso s i AND 1 \<noteq> 0"
  shows "command ops dev cmd isWrite s = None"
proof -
  have g: "gate ops dev cmd t = None" if "miso t = miso s" for t
    using assms that by (simp add: gate_def while_busy_always_busy)
  have "prelude ops dev cmd isWrite s = None"
  proof (cases isWrite)
    case False
    then show ?thesis by (simp add: prelude_def g)
  next
    case True
    show ?thesis
    proof (cases "gate ops dev (SPIFLASH_WRITEENABLE ops) s")
      case None
      with True show ?thesis by (simp add: prelude_def)
    next
      case (Some s00)
      then have "miso s00 = miso s"
        by (auto simp: gate_def while_busy_iff split: if_splits)
      with True Some show ?thesis
        by (simp add: prelude_def g)
    qed
  qed
  then show ?thesis by (simp add: command_eq)
qed

lemma writeByte_idle_chip:
  "writeByte nor_opcodes dev0 0x012345 0xAA idle_chip =
     Some (exchange dev0 [0x02, 0x01, 0x23, 0x45, 0xAA]
       (polls nor_opcodes dev0 (Suc 0)
         (exchange dev0 [0x06] (polls nor_opcodes dev0 (Suc 0) idle_chip))))"
proof -
  have "SPIFLASH_WRITEENABLE nor_opcodes \<noteq> SPIFLASH_WAKE nor_opcodes"
    "SPIFLASH_BYTEPAGEPROGRAM nor_opcodes \<noteq> SPIFLASH_WAKE nor_opcodes"
    by (simp_all add: nor_opcodes_def)
  from prelude_write_never_busy [OF this never_busy_idle_chip, of dev0]
  show ?thesis
    by (simp add: writeByte_eq cycle_def addr_bytes_example) (simp add: nor_opcodes_def)
qed

section \<open>Lemmas: initialisation\<close>

lemma emit_advance: "emit es s = advance es 0 s"
  by (simp add: emit_def advance_def)

lemma unselect_advance:
  "unselect dev s = advance [DigitalWrite (slaveSelectPin dev) HIGH, EndTransaction] 0 s"
  by (simp add: unselect_def emit_advance advance_advance)

lemma initialize_eq:
  "initialize ops dev s =
     (if jedecID dev = 0
      then map_option (Pair True) (cycle ops dev True (SPIFLASH_STATUSWRITE ops) [0] (init_probe ops dev s))
      else if fst (readDeviceId ops dev (init_probe ops dev s)) = jedecID dev
      then map_option (Pair True)
             (cycle ops dev True (SPIFLASH_STATUSWRITE ops) [0]
                (snd (readDeviceId ops dev (init_probe ops dev s))))
      else Some (False, snd (readDeviceId ops dev (init_probe ops dev s))))"
proof -
  have pre: "unselect dev (emit [SpiBegin] (emit [PinModeOutput (slaveSelectPin dev)] s)) =
      advance [PinModeOutput (slaveSelectPin dev), SpiBegin,
                 DigitalWrite (slaveSelectPin dev) HIGH, EndTransaction] 0 s"
    by (simp add: unselect_advance emit_advance advance_advance)
  have tail: "command ops dev (SPIFLASH_STATUSWRITE ops) True t \<bind>
                (\<lambda>s6. Some (True, unselect dev (send 0 s6))) =
              map_option (Pair True) (cycle ops dev True (SPIFLASH_STATUSWRITE ops) [0] t)" for t
    by (cases "prelude ops dev (SPIFLASH_STATUSWRITE ops) True t")
      (simp_all add: command_eq cycle_def send_opened unselect_opened)
  show ?thesis
    unfolding initialize_def Let_def pre
    by (simp add: wakeup_eq init_probe_def tail split: prod.split)
qed


lemma transcript_init_probe:
  "transcript (init_probe ops dev s) =
     transcript s @ [PinModeOutput (slaveSelectPin dev), SpiBegin,
                     DigitalWrite (slaveSelectPin dev) HIGH, EndTransaction]
       @ cycle_evs dev (miso s) (rxpos s) [SPIFLASH_WAKE ops]"
  by (simp add: init_probe_def transcript_exchange)

lemma init_probe_sel [simp]:
  "miso (init_probe ops dev s) = miso s"
  "rxpos (init_probe ops dev s) = Suc (rxpos s)"
  by (simp_all add: init_probe_def)

lemma frames_init_head:
  "foldl (frame_step (slaveSelectPin dev)) ([], None)
     [PinModeOutput (slaveSelectPin dev), SpiBegin,
      DigitalWrite (slaveSelectPin dev) HIGH, EndTransaction] = ([], None)"
  by simp




lemma id_1234: "fst (readDeviceId nor_opcodes dev0 (init_probe nor_opcodes dev0 chip_1234)) = 0x1234"
  by (simp add: readDeviceId_eq chip_1234_def)


section \<open>Lemmas: the presence probe\<close>

lemma id_reads_sel [simp]:
  "rxpos (id_reads ops dev m s) = rxpos s + 3 * m"
  "miso (id_reads ops dev m s) = miso s"
  by (induction m) (simp_all add: id_reads_def)

lemma id_reads_Suc:
  "id_reads ops dev (Suc m) s = exchange dev [SPIFLASH_IDREAD ops, 0, 0] (id_reads ops dev m s)"
  by (simp add: id_reads_def)

lemma readDeviceId_probe:
  "readDeviceId ops dev (id_reads ops dev j (exchange dev [SPIFLASH_WAKE ops] s)) =
     (probe_id s j, id_reads ops dev (Suc j) (exchange dev [SPIFLASH_WAKE ops] s))"
  by (simp add: readDeviceId_eq probe_id_def id_reads_Suc)

lemma found_loop_run:
  "t = id_reads ops dev i (exchange dev [SPIFLASH_WAKE ops] s) \<Longrightarrow> i \<le> 10 \<Longrightarrow>
   (\<forall>j<i. probe_ok s j) \<Longrightarrow> (0 < i \<longrightarrow> d = probe_id s 0) \<Longrightarrow>
   \<exists>m. i \<le> m \<and> m \<le> 10 \<and>
     snd (found_loop ops dev i d t) = id_reads ops dev m (exchange dev [SPIFLASH_WAKE ops] s) \<and>
     ((\<forall>j<10. probe_ok s j) \<and> m = 10 \<and> fst (found_loop ops dev i d t) = probe_id s 0 \<or>
      \<not> probe_ok s (m - 1) \<and> i < m \<and> (\<forall>j<m - 1. probe_ok s j) \<and>
        fst (found_loop ops dev i d t) = 0)"
proof (induction ops dev i d t rule: found_loop.induct)
  case (1 ops dev i deviceID t)
  let ?s1 = "exchange dev [SPIFLASH_WAKE ops] s"
  note t = \<open>t = id_reads ops dev i ?s1\<close>
  show ?case
  proof (cases "i < 10")
    case False
    with "1.prems" have i: "i = 10" by simp
    have "found_loop ops dev i deviceID t = (deviceID, t)"
      using False by (subst found_loop.simps) simp
    with i t "1.prems"(3,4) show ?thesis
      by (intro exI [of _ 10]) simp
  next
    case True
    have rd: "readDeviceId ops dev t = (probe_id s i, id_reads ops dev (Suc i) ?s1)"
      unfolding t by (rule readDeviceId_probe)
    have bad_iff: "(probe_id s i = 0 \<or> probe_id s i = 0xffff \<or> (0 < i \<and> probe_id s i \<noteq> deviceID))
        \<longleftrightarrow> \<not> probe_ok s i"
      using "1.prems"(4) by (cases "i = 0") (auto simp: probe_ok_def)
    show ?thesis
    proof (cases "probe_ok s i")
      case False
      then have "found_loop ops dev i deviceID t = (0, id_reads ops dev (Suc i) ?s1)"
        using True bad_iff by (subst found_loop.simps) (simp add: rd)
      with False "1.prems"(3) show ?thesis
        by (intro exI [of _ "Suc i"]) (use True in simp)
    next
      case ok: True
      then have step: "found_loop ops dev i deviceID t =
          found_loop ops dev (i + 1) (probe_id s i) (id_reads ops dev (Suc i) ?s1)"
        using True bad_iff by (subst found_loop.simps) (auto simp add: rd)
      have nb: "\<not> (probe_id s i = 0 \<or> probe_id s i = 0xffff \<or> (0 < i \<and> probe_id s i \<noteq> deviceID))"
        using ok bad_iff by simp
      have all: "\<forall>j<i + 1. probe_ok s j"
        using "1.prems"(3) ok by (simp add: less_Suc_eq)
      have d: "0 < i + 1 \<longrightarrow> probe_id s i = probe_id s 0"
        using ok by (simp add: probe_ok_def)
      have "\<exists>m\<ge>i + 1. m \<le> 10 \<and>
         snd (found_loop ops dev (i + 1) (probe_id s i) (id_reads ops dev (Suc i) ?s1)) =
           id_reads ops dev m ?s1 \<and>
         ((\<forall>j<10. probe_ok s j) \<and> m = 10 \<and>
            fst (found_loop ops dev (i + 1) (probe_id s i) (id_reads ops dev (Suc i) ?s1)) = probe_id s 0 \<or>
          \<not> probe_ok s (m - 1) \<and> i + 1 < m \<and> (\<forall>j<m - 1. probe_ok s j) \<and>
            fst (found_loop ops dev (i + 1) (probe_id s i) (id_reads ops dev (Suc i) ?s1)) = 0)"
        by (rule "1.IH" [OF True refl rd [symmetric] nb]) (use True all d in simp_all)
      then obtain m where m: "i + 1 \<le> m" "m \<le> 10"
        "snd (found_loop ops dev (i + 1) (probe_id s i) (id_reads ops dev (Suc i) ?s1)) =
           id_reads ops dev m ?s1"
        "(\<forall>j<10. probe_ok s j) \<and> m = 10 \<and>
           fst (found_loop ops dev (i + 1) (probe_id s i) (id_reads ops dev (Suc i) ?s1)) = probe_id s 0 \<or>
         \<not> probe_ok s (m - 1) \<and> i + 1 < m \<and> (\<forall>j<m - 1. probe_ok s j) \<and>
           fst (found_loop ops dev (i + 1) (probe_id s i) (id_reads ops dev (Suc i) ?s1)) = 0"
        by (elim exE conjE)
      show ?thesis
        unfolding step using m by (intro exI [of _ m]) auto
    qed
  qed
qed

lemma probe_id_steady: "probe_id steady_chip j = 0xEF30"
proof -
  have "Suc (Suc (3 * j)) mod 3 = 2" "Suc (Suc (Suc (3 * j))) mod 3 = 0"
    by presburger+
  then show ?thesis
    by (simp add: probe_id_def steady_chip_def)
qed

lemma probe_ok_steady: "probe_ok steady_chip j"
  by (simp add: probe_ok_def probe_id_steady)

lemma probe_id_idle: "probe_id idle_chip 0 = 0"
  by (simp add: probe_id_def idle_chip_def)

lemma probe_id_stuck: "probe_id stuck_chip 0 = 0xFFFF"
  by (simp add: probe_id_def stuck_chip_def)

section \<open>Lemmas: reading a region\<close>






section \<open>Lemmas: the state of the bus\<close>

lemma leaves_released_Some [simp]: "leaves_released dev (Some t) = released dev t"
  by (simp add: leaves_released_def)

lemma leaves_released_None [simp]: "leaves_released dev None"
  by (simp add: leaves_released_def)

lemma leaves_released_cycle:
  "released dev s \<Longrightarrow> leaves_released dev (cycle ops dev isWrite cmd args s)"
  by (cases "cycle ops dev isWrite cmd args s") (auto intro: released_cycle)

lemma leaves_released_write_cycles:
  "released dev s \<Longrightarrow> leaves_released dev (write_cycles ops dev cmd frames s)"
proof (induction frames arbitrary: s)
  case Nil
  then show ?case by simp
next
  case (Cons args frames)
  show ?case
  proof (cases "cycle ops dev True cmd args s")
    case None
    then show ?thesis by simp
  next
    case (Some t)
    with Cons.prems have "released dev t"
      by (auto intro: released_cycle)
    with Some show ?thesis
      by (simp add: Cons.IH)
  qed
qed

lemma leaves_released_after_prelude:
  "released dev s \<Longrightarrow>
   leaves_released dev (map_option (\<lambda>s1. exchange dev (outs s1) s1) (prelude ops dev cmd w s))"
  by (cases "prelude ops dev cmd w s") (auto intro: released_prelude released_exchange)

lemma released_id_reads: "released dev s \<Longrightarrow> released dev (id_reads ops dev m s)"
  by (induction m) (simp_all add: id_reads_def released_exchange)

lemma bus_state_UNIQUEID [simp]: "bus_state dev (s\<lparr>UNIQUEID := u\<rparr>) = bus_state dev s"
  by (simp add: bus_state_def)

lemma released_UNIQUEID [simp]: "released dev (s\<lparr>UNIQUEID := u\<rparr>) = released dev s"
  by (simp add: released_def)

lemma unselect_UNIQUEID: "unselect dev (s\<lparr>UNIQUEID := u\<rparr>) = (unselect dev s)\<lparr>UNIQUEID := u\<rparr>"
  by (simp add: unselect_def emit_def)

lemma opened_UNIQUEID: "(opened dev outs s)\<lparr>UNIQUEID := u\<rparr> = opened dev outs (s\<lparr>UNIQUEID := u\<rparr>)"
  by (simp add: opened_def advance_def)

lemma readUniqueId_eq:
  "readUniqueId ops dev s =
     map_option (\<lambda>s1. (map (\<lambda>i. miso s1 (rxpos s1 + 5 + i)) [0..<8],
         (exchange dev (SPIFLASH_MACREAD ops # [0, 0, 0, 0] @ replicate 8 0) s1)
           \<lparr>UNIQUEID := map (\<lambda>i. miso s1 (rxpos s1 + 5 + i)) [0..<8]\<rparr>))
       (prelude ops dev (SPIFLASH_MACREAD ops) False s)"
  unfolding readUniqueId_def
  by (cases "prelude ops dev (SPIFLASH_MACREAD ops) False s")
    (simp_all add: command_eq send_opened recv_opened unselect_UNIQUEID unselect_opened Let_def
      eval_nat_numeral del: upt_Suc replicate.simps recv.simps)

lemma released_init_probe: "released dev s \<Longrightarrow> released dev (init_probe ops dev s)"
  by (simp add: released_def bus_state_def transcript_init_probe bus_cycle)

lemma released_found_loop:
  "released dev t \<Longrightarrow> released dev (snd (found_loop ops dev i d t))"
proof (induction ops dev i d t rule: found_loop.induct)
  case (1 ops dev i deviceID s)
  have r: "released dev (snd (readDeviceId ops dev s))"
    using "1.prems" by (simp add: readDeviceId_eq released_exchange)
  show ?case
  proof (cases "i < 10")
    case False
    then show ?thesis
      using "1.prems" by (subst found_loop.simps) simp
  next
    case True
    obtain idNow s1 where rd: "readDeviceId ops dev s = (idNow, s1)"
      by (cases "readDeviceId ops dev s")
    show ?thesis
    proof (cases "idNow = 0 \<or> idNow = 0xffff \<or> (0 < i \<and> idNow \<noteq> deviceID)")
      case bad: True
      then show ?thesis
        using True r rd by (subst found_loop.simps) auto
    next
      case False
      have "released dev (snd (found_loop ops dev (i + 1) idNow s1))"
        using "1.IH" [OF True rd [symmetric] refl False] r rd by simp
      then show ?thesis
        using True False rd by (subst found_loop.simps) auto
    qed
  qed
qed

lemma snd_initialize:
  "map_option snd (initialize ops dev s) =
     (if jedecID dev = 0
      then cycle ops dev True (SPIFLASH_STATUSWRITE ops) [0] (init_probe ops dev s)
      else if fst (readDeviceId ops dev (init_probe ops dev s)) = jedecID dev
      then cycle ops dev True (SPIFLASH_STATUSWRITE ops) [0]
             (exchange dev [SPIFLASH_IDREAD ops, 0, 0] (init_probe ops dev s))
      else Some (exchange dev [SPIFLASH_IDREAD ops, 0, 0] (init_probe ops dev s)))"
  unfolding initialize_eq
  by (simp add: option.map_comp o_def option.map_ident readDeviceId_eq)

lemma snd_found:
  "map_option snd (found ops dev s) =
     Some (snd (found_loop ops dev 0 0 (exchange dev [SPIFLASH_WAKE ops] s)))"
  unfolding found_def wakeup_eq by (simp add: split_beta)

lemma snd_regionIsEmpty:
  "map_option snd (regionIsEmpty ops dev a len s) =
     map_option snd (readBytes ops dev a (ucast len) s)"
  unfolding regionIsEmpty_def
  by (cases "readBytes ops dev a (ucast len) s") (simp_all add: split_beta)

lemma snd_readUniqueId:
  "leaves_released dev (map_option snd (readUniqueId ops dev s)) =
   leaves_released dev (map_option (exchange dev (SPIFLASH_MACREAD ops # [0, 0, 0, 0] @ replicate 8 0))
      (prelude ops dev (SPIFLASH_MACREAD ops) False s))"
  unfolding readUniqueId_eq
  by (cases "prelude ops dev (SPIFLASH_MACREAD ops) False s") simp_all

lemma acquired_command:
  "released dev s \<Longrightarrow> command ops dev cmd w s = Some t \<Longrightarrow> acquired dev t"
  by (auto simp: command_eq intro: acquired_opened released_prelude)

lemma released_fresh: "transcript s = [] \<Longrightarrow> released dev s"
  by (simp add: released_def bus_state_def)

lemma initialize_1234:
  "initialize nor_opcodes dev0 chip_1234 =
     Some (False, snd (readDeviceId nor_opcodes dev0 (init_probe nor_opcodes dev0 chip_1234)))"
  unfolding initialize_eq id_1234 by (simp add: dev0_def)

section \<open>Round trip of the chunk plan through the memory\<close>














section \<open>Lemmas: runs that return, and the frames they send\<close>




























section \<open>The paged write planner\<close>

text \<open>
  Claim C1. For every start address \<open>a\<close> and length \<open>n\<close>, \<^verbatim>\<open>writeBytes\<close> performs exactly one
  page-program command cycle per chunk of its plan, in order, and every chunk lies within
  one 256-byte page: it has at least one byte, and its first and last byte have the same
  page number. The first chunk starts at \<open>a\<close> and is clipped to \<open>256 - a mod 256\<close> bytes; every
  later chunk starts on a page boundary and has at most 256 bytes.
\<close>

theorem writeBytes_chunks_within_page:
  "writeBytes ops dev a buf n s =
      write_cycles ops dev (SPIFLASH_BYTEPAGEPROGRAM ops)
        (map (chunk_args buf) (writeBytes_chunks a n)) s \<and>
    (\<forall>c \<in> set (writeBytes_chunks a n).
       0 < chunk_len c \<and>
       unat (chunk_start c) div 256 = (unat (chunk_start c) + chunk_len c - 1) div 256) \<and>
    (n \<noteq> 0 \<longrightarrow>
      (\<exists>k rest. writeBytes_chunks a n = (a, 0, k) # rest \<and>
         unat k = min (unat n) (256 - unat a mod 256) \<and>
         (\<forall>c \<in> set rest. unat (chunk_start c) mod 256 = 0 \<and> chunk_len c \<le> 256)))"
  using writeBytes_eq_cycles chunks_in_page chunks_Cons by blast

theorem writeBytes_chunks_within_page_witness:
  "(4 :: u16) \<noteq> 0 \<and>
   (0x100, 2, 2) \<in> set (writeBytes_chunks 0xFE 4) \<and>
   0 < chunk_len (0x100 :: u32, 2 :: u16, 2 :: u16) \<and>
   unat (chunk_start (0x100 :: u32, 2 :: u16, 2 :: u16)) div 256 =
     (unat (chunk_start (0x100 :: u32, 2 :: u16, 2 :: u16))
        + chunk_len (0x100 :: u32, 2 :: u16, 2 :: u16) - 1) div 256 \<and>
   (\<exists>k rest. writeBytes_chunks 0xFE 4 = (0xFE, 0, k) # rest \<and>
      unat k = min (unat (4 :: u16)) (256 - unat (0xFE :: u32) mod 256))"
proof -
  have mem: "(0x100, 2, 2) \<in> set (writeBytes_chunks 0xFE 4)"
    by (simp add: chunks_eval)
  have n: "(4 :: u16) \<noteq> 0"
    by simp
  note inst = writeBytes_chunks_within_page [where a = "0xFE" and n = 4 and dev = dev0
      and ops = nor_opcodes and buf = ramp and s = idle_chip]
  from inst mem n show ?thesis
    by blast
qed



text \<open>
  Claim C10. With length 0 \<^verbatim>\<open>writeBytes\<close> returns at once and leaves the machine as it was:
  nothing is appended to the transcript and no answer of the chip is consumed.
\<close>

theorem writeBytes_zero_length: "writeBytes ops dev a buf 0 s = Some s"
  unfolding writeBytes_def by (subst writeBytes_loop.simps) simp

section \<open>Address encoding\<close>



section \<open>The command dispatcher\<close>

text \<open>
  Claim C8. Dispatching the wake-up opcode acquires the bus and sends it at once, with no
  status poll before it; \<^verbatim>\<open>wakeup\<close> is that and the release. Every other opcode that the
  dispatcher sends is sent right after a call of \<^verbatim>\<open>busy\<close> that returned false, and is not
  sent at all while the chip keeps reporting busy. (The identifier read and the status
  read do not go through the dispatcher: \<^verbatim>\<open>readDeviceId\<close> and \<^verbatim>\<open>readStatus\<close> acquire the bus
  themselves.)
\<close>

theorem wake_bypasses_busy_wait:
  "command ops dev (SPIFLASH_WAKE ops) False s = Some (send (SPIFLASH_WAKE ops) (select dev s)) \<and>
   wakeup ops dev s = Some (unselect dev (send (SPIFLASH_WAKE ops) (select dev s))) \<and>
   (cmd \<noteq> SPIFLASH_WAKE ops \<longrightarrow> command ops dev cmd isWrite s = Some s' \<longrightarrow>
      (\<exists>t es. transcript t = transcript s @ es \<and> \<not> fst (busy ops dev t) \<and>
         s' = send cmd (select dev (snd (busy ops dev t))))) \<and>
   (cmd \<noteq> SPIFLASH_WAKE ops \<longrightarrow> (\<forall>i. miso s i AND 1 \<noteq> 0) \<longrightarrow>
      command ops dev cmd isWrite s = None)"
proof (intro conjI impI)
  show "command ops dev (SPIFLASH_WAKE ops) False s = Some (send (SPIFLASH_WAKE ops) (select dev s))"
    by (simp add: command_False gate_def select_opened send_opened)
  then show "wakeup ops dev s = Some (unselect dev (send (SPIFLASH_WAKE ops) (select dev s)))"
    by (simp add: wakeup_def)
next
  assume "cmd \<noteq> SPIFLASH_WAKE ops" "command ops dev cmd isWrite s = Some s'"
  then show "\<exists>t es. transcript t = transcript s @ es \<and> \<not> fst (busy ops dev t) \<and>
         s' = send cmd (select dev (snd (busy ops dev t)))"
    by (rule command_last_poll)
next
  assume "cmd \<noteq> SPIFLASH_WAKE ops" "\<forall>i. miso s i AND 1 \<noteq> 0"
  then show "command ops dev cmd isWrite s = None"
    by (rule command_always_busy)
qed

theorem wake_bypasses_busy_wait_witness:
  "(0x03 :: u8) \<noteq> SPIFLASH_WAKE nor_opcodes \<and>
   command nor_opcodes dev0 0x03 False idle_chip =
     Some (opened dev0 [0x03] (polls nor_opcodes dev0 (Suc 0) idle_chip)) \<and>
   (\<exists>t es. transcript t = transcript idle_chip @ es \<and> \<not> fst (busy nor_opcodes dev0 t) \<and>
      opened dev0 [0x03] (polls nor_opcodes dev0 (Suc 0) idle_chip) =
        send 0x03 (select dev0 (snd (busy nor_opcodes dev0 t)))) \<and>
   (\<forall>i. miso stuck_chip i AND 1 \<noteq> 0) \<and>
   command nor_opcodes dev0 0x03 False stuck_chip = None"
proof -
  have ne: "(0x03 :: u8) \<noteq> SPIFLASH_WAKE nor_opcodes"
    by (simp add: nor_opcodes_def)
  have run: "command nor_opcodes dev0 0x03 False idle_chip =
     Some (opened dev0 [0x03] (polls nor_opcodes dev0 (Suc 0) idle_chip))"
    using ne by (simp add: command_False gate_def while_busy_never_busy never_busy_idle_chip)
  have stuck: "\<forall>i. miso stuck_chip i AND 1 \<noteq> 0"
    by (simp add: stuck_chip_def)
  note a = wake_bypasses_busy_wait [where ops = nor_opcodes and dev = dev0 and cmd = "0x03" and isWrite = False
      and s = idle_chip and s' = "opened dev0 [0x03] (polls nor_opcodes dev0 (Suc 0) idle_chip)"]
  note b = wake_bypasses_busy_wait [where ops = nor_opcodes and dev = dev0 and cmd = "0x03" and isWrite = False
      and s = stuck_chip]
  from a b ne run stuck show ?thesis
    by blast
qed

text \<open>
  Claim C3, as the code has it. A write-type command is dispatched as: a busy-wait, the
  write-enable cycle (one byte, then the bus is released), a second busy-wait, and then
  the cycle of the opcode. So the frames on the bus are one or more status polls, the
  write-enable frame, one or more status polls, and the frame of the opcode: each such
  opcode is preceded by exactly one write-enable command and by two busy-waits, one of
  them before the write-enable. \<^verbatim>\<open>writeByte\<close>, every chunk of \<^verbatim>\<open>writeBytes\<close> and the four
  erase operations are such cycles. (Stated for opcodes other than the wake-up opcode,
  which skips its busy-wait.)
\<close>

theorem write_command_sequence:
  assumes "SPIFLASH_WRITEENABLE ops \<noteq> SPIFLASH_WAKE ops" "cmd \<noteq> SPIFLASH_WAKE ops"
  shows
   "(command ops dev cmd True s = Some s' \<longleftrightarrow>
      (\<exists>k1 k2. settles s k1 \<and>
         settles (exchange dev [SPIFLASH_WRITEENABLE ops] (polls ops dev (Suc k1) s)) k2 \<and>
         s' = opened dev [cmd] (polls ops dev (Suc k2)
                (exchange dev [SPIFLASH_WRITEENABLE ops] (polls ops dev (Suc k1) s))))) \<and>
    (cycle ops dev True cmd args s = Some s'' \<longrightarrow>
      (\<exists>k1 k2. mosi_frames (slaveSelectPin dev) (issued s s'') =
         replicate (Suc k1) [SPIFLASH_STATUSREAD ops, 0] @ [[SPIFLASH_WRITEENABLE ops]]
         @ replicate (Suc k2) [SPIFLASH_STATUSREAD ops, 0] @ [cmd # args])) \<and>
    writeByte ops dev addr byt s =
      cycle ops dev True (SPIFLASH_BYTEPAGEPROGRAM ops) (addr_bytes addr @ [byt]) s \<and>
    writeBytes ops dev addr buf len s =
      write_cycles ops dev (SPIFLASH_BYTEPAGEPROGRAM ops)
        (map (chunk_args buf) (writeBytes_chunks addr len)) s \<and>
    chipErase ops dev s = cycle ops dev True (SPIFLASH_CHIPERASE ops) [] s \<and>
    blockErase4K ops dev addr s =
      cycle ops dev True (SPIFLASH_BLOCKERASE_4K ops) (addr_bytes addr) s \<and>
    blockErase32K ops dev addr s =
      cycle ops dev True (SPIFLASH_BLOCKERASE_32K ops) (addr_bytes addr) s \<and>
    blockErase64K ops dev addr s =
      cycle ops dev True (SPIFLASH_BLOCKERASE_64K ops) (addr_bytes addr) s"
proof (intro conjI impI)
  show "command ops dev cmd True s = Some s' \<longleftrightarrow>
      (\<exists>k1 k2. settles s k1 \<and>
         settles (exchange dev [SPIFLASH_WRITEENABLE ops] (polls ops dev (Suc k1) s)) k2 \<and>
         s' = opened dev [cmd] (polls ops dev (Suc k2)
                (exchange dev [SPIFLASH_WRITEENABLE ops] (polls ops dev (Suc k1) s))))"
    unfolding command_eq map_option_eq_Some prelude_write_iff [OF assms] by blast
next
  assume "cycle ops dev True cmd args s = Some s''"
  with assms show "\<exists>k1 k2. mosi_frames (slaveSelectPin dev) (issued s s'') =
         replicate (Suc k1) [SPIFLASH_STATUSREAD ops, 0] @ [[SPIFLASH_WRITEENABLE ops]]
         @ replicate (Suc k2) [SPIFLASH_STATUSREAD ops, 0] @ [cmd # args]"
    by (rule cycle_write_frames)
qed (rule writeByte_eq writeBytes_eq_cycles chipErase_eq blockErase4K_eq blockErase32K_eq
    blockErase64K_eq)+

theorem write_command_sequence_witness:
  "SPIFLASH_WRITEENABLE nor_opcodes \<noteq> SPIFLASH_WAKE nor_opcodes \<and>
   (0x02 :: u8) \<noteq> SPIFLASH_WAKE nor_opcodes \<and>
   command nor_opcodes dev0 0x02 True idle_chip =
     Some (opened dev0 [0x02] (polls nor_opcodes dev0 (Suc 0)
       (exchange dev0 [SPIFLASH_WRITEENABLE nor_opcodes] (polls nor_opcodes dev0 (Suc 0) idle_chip)))) \<and>
   cycle nor_opcodes dev0 True 0x02 [0x01, 0x23, 0x45, 0xAA] idle_chip =
     Some (exchange dev0 [0x02, 0x01, 0x23, 0x45, 0xAA] (polls nor_opcodes dev0 (Suc 0)
       (exchange dev0 [SPIFLASH_WRITEENABLE nor_opcodes] (polls nor_opcodes dev0 (Suc 0) idle_chip)))) \<and>
   (\<exists>k1 k2. mosi_frames (slaveSelectPin dev0) (issued idle_chip
       (exchange dev0 [0x02, 0x01, 0x23, 0x45, 0xAA] (polls nor_opcodes dev0 (Suc 0)
         (exchange dev0 [SPIFLASH_WRITEENABLE nor_opcodes] (polls nor_opcodes dev0 (Suc 0) idle_chip))))) =
      replicate (Suc k1) [SPIFLASH_STATUSREAD nor_opcodes, 0] @ [[SPIFLASH_WRITEENABLE nor_opcodes]]
      @ replicate (Suc k2) [SPIFLASH_STATUSREAD nor_opcodes, 0] @ [[0x02, 0x01, 0x23, 0x45, 0xAA]])"
proof -
  let ?mid = "exchange dev0 [SPIFLASH_WRITEENABLE nor_opcodes] (polls nor_opcodes dev0 (Suc 0) idle_chip)"
  have ne: "SPIFLASH_WRITEENABLE nor_opcodes \<noteq> SPIFLASH_WAKE nor_opcodes"
    "(0x02 :: u8) \<noteq> SPIFLASH_WAKE nor_opcodes"
    by (simp_all add: nor_opcodes_def)
  have st: "settles idle_chip 0" "settles ?mid 0"
    by (simp_all add: never_busy_settles never_busy_idle_chip)
  have cyc: "cycle nor_opcodes dev0 True 0x02 [0x01, 0x23, 0x45, 0xAA] idle_chip =
     Some (exchange dev0 [0x02, 0x01, 0x23, 0x45, 0xAA] (polls nor_opcodes dev0 (Suc 0) ?mid))"
    by (simp add: cycle_def prelude_write_never_busy [OF ne never_busy_idle_chip])
  note inst = write_command_sequence [OF ne, where dev = dev0 and s = idle_chip
      and s' = "opened dev0 [0x02] (polls nor_opcodes dev0 (Suc 0) ?mid)"
      and s'' = "exchange dev0 [0x02, 0x01, 0x23, 0x45, 0xAA] (polls nor_opcodes dev0 (Suc 0) ?mid)"
      and args = "[0x01, 0x23, 0x45, 0xAA]"]
  from inst st have "command nor_opcodes dev0 0x02 True idle_chip =
     Some (opened dev0 [0x02] (polls nor_opcodes dev0 (Suc 0) ?mid))"
    by blast
  moreover from inst cyc have "\<exists>k1 k2. mosi_frames (slaveSelectPin dev0) (issued idle_chip
       (exchange dev0 [0x02, 0x01, 0x23, 0x45, 0xAA] (polls nor_opcodes dev0 (Suc 0) ?mid))) =
      replicate (Suc k1) [SPIFLASH_STATUSREAD nor_opcodes, 0] @ [[SPIFLASH_WRITEENABLE nor_opcodes]]
      @ replicate (Suc k2) [SPIFLASH_STATUSREAD nor_opcodes, 0] @ [[0x02, 0x01, 0x23, 0x45, 0xAA]]"
    by blast
  ultimately show ?thesis
    using ne cyc by blast
qed

text \<open>
  The claim as the specification words it, write-enable first and then one busy-wait,
  fails on a chip that is never busy: \<^verbatim>\<open>writeByte(0x012345, 0xAA)\<close> puts four frames on the
  bus, a status poll, the write-enable, a second status poll and the page program.
\<close>

theorem write_enable_follows_a_poll:
  "mosi_frames (slaveSelectPin dev0)
     (transcript (the (writeByte nor_opcodes dev0 0x012345 0xAA idle_chip))) =
     [[0x05, 0], [0x06], [0x05, 0], [0x02, 0x01, 0x23, 0x45, 0xAA]] \<and>
   mosi_frames (slaveSelectPin dev0)
     (transcript (the (writeByte nor_opcodes dev0 0x012345 0xAA idle_chip))) \<noteq>
     [[0x06], [0x05, 0], [0x02, 0x01, 0x23, 0x45, 0xAA]]"
proof -
  have "transcript idle_chip = []"
    by (simp add: idle_chip_def)
  then have "mosi_frames (slaveSelectPin dev0)
     (transcript (the (writeByte nor_opcodes dev0 0x012345 0xAA idle_chip))) =
     [[SPIFLASH_STATUSREAD nor_opcodes, 0], [0x06], [SPIFLASH_STATUSREAD nor_opcodes, 0],
      [0x02, 0x01, 0x23, 0x45, 0xAA]]"
    unfolding writeByte_idle_chip option.sel mosi_frames_def
    by (simp add: transcript_exchange transcript_polls frames_cycle frames_polls
        del: poll_evs.simps)
  then show ?thesis
    by (simp add: nor_opcodes_def)
qed

section \<open>Initialisation\<close>



section \<open>Presence and erased regions\<close>

text \<open>
  Claim C5. \<^verbatim>\<open>found\<close> always returns. It wakes the chip and then reads the identifier
  \<open>m\<close> times, with \<open>m\<close> between 1 and 10: every read but the last made was good (not 0, not
  \<^verbatim>\<open>0xFFFF\<close>, equal to the first read), and it stops before the tenth read only on a bad
  one. It returns true (1) if and only if all ten reads are good, and false (0)
  otherwise.
\<close>

theorem found_requires_ten_steady_reads:
  "\<exists>r s' m. found ops dev s = Some (r, s') \<and>
     (r = 1 \<longleftrightarrow> (\<forall>j<10. probe_ok s j)) \<and>
     (r = 0 \<longleftrightarrow> \<not> (\<forall>j<10. probe_ok s j)) \<and>
     1 \<le> m \<and> m \<le> 10 \<and>
     s' = id_reads ops dev m (exchange dev [SPIFLASH_WAKE ops] s) \<and>
     (\<forall>j<m - 1. probe_ok s j) \<and>
     (m < 10 \<longrightarrow> \<not> probe_ok s (m - 1)) \<and>
     (\<forall>j. readDeviceId ops dev (id_reads ops dev j (exchange dev [SPIFLASH_WAKE ops] s)) =
          (probe_id s j, id_reads ops dev (Suc j) (exchange dev [SPIFLASH_WAKE ops] s)))"
proof -
  let ?s1 = "exchange dev [SPIFLASH_WAKE ops] s"
  have "?s1 = id_reads ops dev 0 ?s1"
    by (simp add: id_reads_def)
  from found_loop_run [OF this, where d = 0]
  obtain m where m: "m \<le> 10"
    "snd (found_loop ops dev 0 0 ?s1) = id_reads ops dev m ?s1"
    "(\<forall>j<10. probe_ok s j) \<and> m = 10 \<and> fst (found_loop ops dev 0 0 ?s1) = probe_id s 0 \<or>
     \<not> probe_ok s (m - 1) \<and> 0 < m \<and> (\<forall>j<m - 1. probe_ok s j) \<and>
       fst (found_loop ops dev 0 0 ?s1) = 0"
    by auto
  let ?d = "fst (found_loop ops dev 0 0 ?s1)"
  have f: "found ops dev s = Some (if ?d = 0 then 0 else 1, id_reads ops dev m ?s1)"
    unfolding found_def wakeup_eq using m(2) by (simp add: split_beta)
  from m(3) have d: "?d \<noteq> 0 \<longleftrightarrow> (\<forall>j<10. probe_ok s j)"
  proof
    assume a: "(\<forall>j<10. probe_ok s j) \<and> m = 10 \<and> ?d = probe_id s 0"
    then have "probe_ok s 0" by simp
    then have "probe_id s 0 \<noteq> 0" by (simp add: probe_ok_def)
    with a show ?thesis by simp
  next
    assume a: "\<not> probe_ok s (m - 1) \<and> 0 < m \<and> (\<forall>j<m - 1. probe_ok s j) \<and> ?d = 0"
    with m(1) have "m - 1 < 10" by simp
    with a show ?thesis by blast
  qed
  from m(3) have pos: "1 \<le> m"
    by auto
  from m(3) have pre: "\<forall>j<m - 1. probe_ok s j"
    by auto
  from m(3) have early: "m < 10 \<longrightarrow> \<not> probe_ok s (m - 1)"
    by auto
  define r :: u8 where "r = (if ?d = 0 then 0 else 1)"
  have r1: "r = 1 \<longleftrightarrow> (\<forall>j<10. probe_ok s j)"
    using d by (auto simp: r_def)
  have r0: "r = 0 \<longleftrightarrow> \<not> (\<forall>j<10. probe_ok s j)"
    using d by (auto simp: r_def)
  have f': "found ops dev s = Some (r, id_reads ops dev m ?s1)"
    using f by (simp add: r_def)
  have rd: "\<forall>j. readDeviceId ops dev (id_reads ops dev j ?s1) =
          (probe_id s j, id_reads ops dev (Suc j) ?s1)"
    by (simp add: readDeviceId_probe)
  from f' r1 r0 pos m(1) pre early rd show ?thesis
    by blast
qed

theorem found_requires_ten_steady_reads_witness:
  "list_all (probe_ok steady_chip) [0..<10] \<and>
   (\<exists>s'. found nor_opcodes dev0 steady_chip = Some (1, s')) \<and>
   probe_id idle_chip 0 = 0 \<and>
   found nor_opcodes dev0 idle_chip =
     Some (0, id_reads nor_opcodes dev0 1 (exchange dev0 [SPIFLASH_WAKE nor_opcodes] idle_chip)) \<and>
   probe_id stuck_chip 0 = 0xFFFF \<and>
   found nor_opcodes dev0 stuck_chip =
     Some (0, id_reads nor_opcodes dev0 1 (exchange dev0 [SPIFLASH_WAKE nor_opcodes] stuck_chip))"
proof -
  have all: "\<forall>j<10. probe_ok steady_chip j"
    by (simp add: probe_ok_steady)
  have la: "list_all (probe_ok steady_chip) [0..<10]"
    by (simp add: list_all_iff probe_ok_steady)
  from found_requires_ten_steady_reads [of nor_opcodes dev0 steady_chip] all
  have 1: "\<exists>s'. found nor_opcodes dev0 steady_chip = Some (1, s')"
    by blast
  have early: "found nor_opcodes dev0 s =
     Some (0, id_reads nor_opcodes dev0 1 (exchange dev0 [SPIFLASH_WAKE nor_opcodes] s))"
    if bad: "\<not> probe_ok s 0" for s
  proof -
    from found_requires_ten_steady_reads [of nor_opcodes dev0 s] obtain r s' m where
      f: "found nor_opcodes dev0 s = Some (r, s')"
      and r: "r = 0 \<longleftrightarrow> \<not> (\<forall>j<10. probe_ok s j)"
      and m: "1 \<le> m" "\<forall>j<m - 1. probe_ok s j"
      and s': "s' = id_reads nor_opcodes dev0 m (exchange dev0 [SPIFLASH_WAKE nor_opcodes] s)"
      by blast
    from bad r have "r = 0" by auto
    moreover from bad m have "m = 1"
      by (metis One_nat_def Suc_pred le_eq_less_or_eq less_Suc_eq_le not_less zero_less_diff)
    ultimately show ?thesis
      using f s' by simp
  qed
  have "\<not> probe_ok idle_chip 0" "\<not> probe_ok stuck_chip 0"
    by (simp_all add: probe_ok_def probe_id_idle probe_id_stuck)
  with early have "found nor_opcodes dev0 idle_chip =
     Some (0, id_reads nor_opcodes dev0 1 (exchange dev0 [SPIFLASH_WAKE nor_opcodes] idle_chip))"
    "found nor_opcodes dev0 stuck_chip =
     Some (0, id_reads nor_opcodes dev0 1 (exchange dev0 [SPIFLASH_WAKE nor_opcodes] stuck_chip))"
    by blast+
  with la 1 probe_id_idle probe_id_stuck show ?thesis
    by blast
qed



section \<open>Scoped bus acquisition\<close>

text \<open>
  Claim C9. Started with the bus released, and no byte exchanged outside an acquisition
  so far, every operation that returns leaves the bus released (transaction ended, chip
  deselected), and every byte it exchanged was exchanged with the transaction open and
  the chip selected; this covers the failure return of \<^verbatim>\<open>initialize\<close>. The dispatcher
  itself returns with the bus acquired, for its caller to stream the rest of the
  command.
\<close>

theorem bus_released_after_operation:
  assumes "released dev s"
  shows
   "leaves_released dev (map_option snd (initialize ops dev s)) \<and>
    released dev (snd (readDeviceId ops dev s)) \<and>
    leaves_released dev (map_option snd (readUniqueId ops dev s)) \<and>
    leaves_released dev (map_option snd (readByte ops dev addr s)) \<and>
    leaves_released dev (map_option snd (readBytes ops dev addr len s)) \<and>
    released dev (snd (readStatus ops dev s)) \<and>
    released dev (snd (busy ops dev s)) \<and>
    leaves_released dev (writeByte ops dev addr byt s) \<and>
    leaves_released dev (writeBytes ops dev addr buf len s) \<and>
    leaves_released dev (chipErase ops dev s) \<and>
    leaves_released dev (blockErase4K ops dev addr s) \<and>
    leaves_released dev (blockErase32K ops dev addr s) \<and>
    leaves_released dev (blockErase64K ops dev addr s) \<and>
    leaves_released dev (map_option snd (found ops dev s)) \<and>
    leaves_released dev (map_option snd (regionIsEmpty ops dev addr length' s)) \<and>
    leaves_released dev (sleep ops dev s) \<and>
    leaves_released dev (wakeup ops dev s) \<and>
    released dev (end_spi s) \<and>
    (\<forall>t. command ops dev cmd isWrite s = Some t \<longrightarrow> acquired dev t)"
proof (intro conjI allI impI)
  note r = assms
  have p: "released dev (init_probe ops dev s)"
    by (rule released_init_probe [OF r])
  show "leaves_released dev (map_option snd (initialize ops dev s))"
    unfolding snd_initialize
    by (simp add: leaves_released_cycle p released_exchange)
  show "released dev (snd (readDeviceId ops dev s))"
    by (simp add: readDeviceId_eq released_exchange r)
  show "leaves_released dev (map_option snd (readUniqueId ops dev s))"
    unfolding snd_readUniqueId by (rule leaves_released_after_prelude [OF r])
  show "leaves_released dev (map_option snd (readByte ops dev addr s))"
    unfolding readByte_eq map_option_snd_case by (rule leaves_released_after_prelude [OF r])
  show rb: "leaves_released dev (map_option snd (readBytes ops dev addr len s))" for addr len
    unfolding readBytes_eq map_option_snd_case by (rule leaves_released_after_prelude [OF r])
  show "released dev (snd (readStatus ops dev s))"
    by (simp add: readStatus_eq released_exchange r)
  show "released dev (snd (busy ops dev s))"
    by (simp add: busy_eq released_exchange r)
  show "leaves_released dev (writeByte ops dev addr byt s)"
    unfolding writeByte_eq by (rule leaves_released_cycle [OF r])
  show "leaves_released dev (writeBytes ops dev addr buf len s)"
    unfolding writeBytes_eq_cycles by (rule leaves_released_write_cycles [OF r])
  show "leaves_released dev (chipErase ops dev s)"
    unfolding chipErase_eq by (rule leaves_released_cycle [OF r])
  show "leaves_released dev (blockErase4K ops dev addr s)"
    unfolding blockErase4K_eq by (rule leaves_released_cycle [OF r])
  show "leaves_released dev (blockErase32K ops dev addr s)"
    unfolding blockErase32K_eq by (rule leaves_released_cycle [OF r])
  show "leaves_released dev (blockErase64K ops dev addr s)"
    unfolding blockErase64K_eq by (rule leaves_released_cycle [OF r])
  show "leaves_released dev (map_option snd (found ops dev s))"
    unfolding snd_found by (simp add: released_found_loop released_exchange r)
  show "leaves_released dev (map_option snd (regionIsEmpty ops dev addr length' s))"
    unfolding snd_regionIsEmpty by (rule rb)
  show "leaves_released dev (sleep ops dev s)"
    unfolding sleep_eq by (rule leaves_released_cycle [OF r])
  show "leaves_released dev (wakeup ops dev s)"
    unfolding wakeup_eq by (simp add: released_exchange r)
  show "released dev (end_spi s)"
    using r by (simp add: end_spi_def emit_def released_def bus_state_def)
next
  fix t assume "command ops dev cmd isWrite s = Some t"
  with assms show "acquired dev t"
    by (rule acquired_command)
qed

theorem bus_released_after_operation_witness:
  "released dev0 idle_chip \<and>
   released dev0 (snd (readDeviceId nor_opcodes dev0 idle_chip)) \<and>
   writeByte nor_opcodes dev0 0x012345 0xAA idle_chip =
     Some (exchange dev0 [0x02, 0x01, 0x23, 0x45, 0xAA]
       (polls nor_opcodes dev0 (Suc 0)
         (exchange dev0 [0x06] (polls nor_opcodes dev0 (Suc 0) idle_chip)))) \<and>
   released dev0 (exchange dev0 [0x02, 0x01, 0x23, 0x45, 0xAA]
       (polls nor_opcodes dev0 (Suc 0)
         (exchange dev0 [0x06] (polls nor_opcodes dev0 (Suc 0) idle_chip)))) \<and>
   released dev0 chip_1234 \<and>
   initialize nor_opcodes dev0 chip_1234 =
     Some (False, snd (readDeviceId nor_opcodes dev0 (init_probe nor_opcodes dev0 chip_1234))) \<and>
   released dev0 (snd (readDeviceId nor_opcodes dev0 (init_probe nor_opcodes dev0 chip_1234)))"
proof -
  have i: "released dev0 idle_chip"
    by (rule released_fresh) (simp add: idle_chip_def)
  have c: "released dev0 chip_1234"
    by (rule released_fresh) (simp add: chip_1234_def)
  note a = bus_released_after_operation [OF i, where ops = nor_opcodes and addr = "0x012345" and byt = "0xAA"]
  note b = bus_released_after_operation [OF c, where ops = nor_opcodes]
  from a have 1: "released dev0 (snd (readDeviceId nor_opcodes dev0 idle_chip))"
    by blast
  from a have "leaves_released dev0 (writeByte nor_opcodes dev0 0x012345 0xAA idle_chip)"
    by blast
  then have 2: "released dev0 (exchange dev0 [0x02, 0x01, 0x23, 0x45, 0xAA]
       (polls nor_opcodes dev0 (Suc 0)
         (exchange dev0 [0x06] (polls nor_opcodes dev0 (Suc 0) idle_chip))))"
    unfolding writeByte_idle_chip by simp
  from b have "leaves_released dev0 (map_option snd (initialize nor_opcodes dev0 chip_1234))"
    by blast
  then have 3: "released dev0 (snd (readDeviceId nor_opcodes dev0 (init_probe nor_opcodes dev0 chip_1234)))"
    unfolding initialize_1234 by simp
  from i c 1 2 3 writeByte_idle_chip initialize_1234 show ?thesis
    by blast
qed

end
